theory Spec2Isabelle
  imports Main
begin

section \<open>JavaScript values\<close>

text \<open>
  The builder receives dynamically typed payloads.  A value is one of the JSON-like
  shapes the builder inspects with \<^verbatim>\<open>typeof\<close>, \<^verbatim>\<open>Array.isArray\<close> and \<^verbatim>\<open>in\<close>.
  \<^item> \<open>Num n\<close> is a number that is an integer of magnitude below \<open>10^21\<close>; such a number
    prints in plain decimal.  Fractions, \<^verbatim>\<open>NaN\<close> and infinities are outside the model.
  \<^item> \<open>Arr xs\<close> is a dense array; \<open>Obj kvs\<close> is a plain object whose own enumerable
    properties are \<open>kvs\<close>, in enumeration order, with distinct keys.
  \<^item> A character is one code unit; none of the patterns of the builder looks at a
    unit beyond ASCII.
\<close>

datatype jsval =
    Undefined
  | Null
  | Bool bool
  | Num int
  | Str string
  | Arr "jsval list"
  | Obj "(string \<times> jsval) list"

datatype error =
    MissingField string   \<comment> \<open>\<^verbatim>\<open>Error('Select: Missing table')\<close> and its siblings\<close>
  | UnknownQueryType      \<comment> \<open>\<^verbatim>\<open>Error('Unknown query type')\<close>\<close>
  | UnknownClause         \<comment> \<open>\<^verbatim>\<open>Error('Condition: Unknown clause')\<close>\<close>
  | TypeError             \<comment> \<open>raised by the language itself\<close>
  | RangeError            \<comment> \<open>raised by the language on an invalid array length\<close>

text \<open>\<^verbatim>\<open>typeof val\<close>.\<close>

fun typeof :: "jsval \<Rightarrow> string" where
  "typeof Undefined = ''undefined''"
| "typeof Null = ''object''"
| "typeof (Bool b) = ''boolean''"
| "typeof (Num n) = ''number''"
| "typeof (Str s) = ''string''"
| "typeof (Arr xs) = ''object''"
| "typeof (Obj kvs) = ''object''"

text \<open>Decimal digits of a natural number, as the property key of an array index is written.\<close>

fun show_nat :: "nat \<Rightarrow> string" where
  "show_nat n =
     (if n < 10 then [''0123456789'' ! n]
      else show_nat (n div 10) @ [''0123456789'' ! (n mod 10)])"

declare show_nat.simps [simp del]

definition show_int :: "int \<Rightarrow> string" where
  "show_int i = (if i < 0 then ''-'' @ show_nat (nat (- i)) else show_nat (nat i))"

text \<open>\<^verbatim>\<open>xs.join(sep)\<close> on strings.\<close>

fun join :: "string \<Rightarrow> string list \<Rightarrow> string" where
  "join sep [] = []"
| "join sep [x] = x"
| "join sep (x # y # ys) = x @ sep @ join sep (y # ys)"

text \<open>
  \<^verbatim>\<open>String(val)\<close>, which is also what a template literal \<^verbatim>\<open>`${val}`\<close> and string
  concatenation apply.  An array prints its entries joined by commas, \<^verbatim>\<open>null\<close> and
  \<^verbatim>\<open>undefined\<close> entries as the empty string.
\<close>

fun to_string :: "jsval \<Rightarrow> string" where
  "to_string Undefined = ''undefined''"
| "to_string Null = ''null''"
| "to_string (Bool b) = (if b then ''true'' else ''false'')"
| "to_string (Num n) = show_int n"
| "to_string (Str s) = s"
| "to_string (Arr xs) =
     join '','' (map (\<lambda>x. if x = Null \<or> x = Undefined then [] else to_string x) xs)"
| "to_string (Obj kvs) = ''[object Object]''"

section \<open>Escaper\<close>

text \<open>
  \<^verbatim>\<open>sqlEscape\<close>: the character class \<^verbatim>\<open>/[\0\b\t\n\r\x1a\"\'\\]/g\<close> and the object \<^verbatim>\<open>map\<close>.
\<close>

definition special :: "char \<Rightarrow> bool" where
  "special c \<longleftrightarrow>
     c = CHR 0x00 \<or> c = CHR 0x08 \<or> c = CHR 0x09 \<or> c = CHR 0x0A \<or> c = CHR 0x0D \<or>
     c = CHR 0x1A \<or> c = CHR 0x22 \<or> c = CHR 0x27 \<or> c = CHR 0x5C"

definition escape_map :: "char \<Rightarrow> string" where
  "escape_map c =
     (if c = CHR 0x00 then [CHR 0x5C, CHR ''0'']
      else if c = CHR 0x08 then [CHR 0x5C, CHR ''b'']
      else if c = CHR 0x09 then [CHR 0x5C, CHR ''t'']
      else if c = CHR 0x0A then [CHR 0x5C, CHR ''n'']
      else if c = CHR 0x0D then [CHR 0x5C, CHR ''r'']
      else if c = CHR 0x1A then [CHR 0x5C, CHR ''Z'']
      else if c = CHR 0x22 then [CHR 0x5C, CHR 0x22]
      else if c = CHR 0x27 then [CHR 0x5C, CHR 0x27]
      else if c = CHR 0x5C then [CHR 0x5C, CHR 0x5C]
      else ''undefined'')"

text \<open>
  The \<^verbatim>\<open>while ((match = reg.exec(val)))\<close> loop.  The second argument is the text of
  \<^verbatim>\<open>String(val)\<close> from \<open>idx\<close> on; a match is the next special character, at
  \<^verbatim>\<open>match.index = idx\<close>, and leaves \<^verbatim>\<open>reg.lastIndex = idx + 1\<close>.  \<open>slc a b\<close> is the text
  of \<^verbatim>\<open>val.slice(a, b)\<close>.  The result is the final \<^verbatim>\<open>chunk\<close> and \<^verbatim>\<open>escaped\<close>.
\<close>

fun escape_loop :: "(nat \<Rightarrow> nat \<Rightarrow> string) \<Rightarrow> string \<Rightarrow> nat \<Rightarrow> nat \<Rightarrow> string \<Rightarrow> nat \<times> string" where
  "escape_loop slc [] idx chunk escaped = (chunk, escaped)"
| "escape_loop slc (c # cs) idx chunk escaped =
     (if special c
      then escape_loop slc cs (Suc idx) (Suc idx) (escaped @ slc chunk idx @ escape_map c)
      else escape_loop slc cs (Suc idx) chunk escaped)"

text \<open>
  \<^verbatim>\<open>sqlEscape(val)\<close>.  The result is \<^verbatim>\<open>val\<close> itself when nothing matched
  (\<^verbatim>\<open>chunk === 0\<close>), a string otherwise.  On an array \<^verbatim>\<open>exec\<close> scans
  \<^verbatim>\<open>String(val)\<close> while \<^verbatim>\<open>slice\<close> and \<^verbatim>\<open>length\<close> are the array's own.  The text of
  \<^verbatim>\<open>undefined\<close>, \<^verbatim>\<open>null\<close>, a boolean, an integer or a plain object holds none of the
  nine characters (lemma \<open>no_special_scalar\<close>), so for them the loop body never runs.
\<close>

definition sqlEscape :: "jsval \<Rightarrow> jsval" where
  "sqlEscape val =
     (case val of
        Str s \<Rightarrow>
          (case escape_loop (\<lambda>a b. take (b - a) (drop a s)) s 0 0 [] of
             (chunk, escaped) \<Rightarrow>
               if chunk = 0 then val
               else if chunk < length s then Str (escaped @ drop chunk s)
               else Str escaped)
      | Arr xs \<Rightarrow>
          (case escape_loop (\<lambda>a b. to_string (Arr (take (b - a) (drop a xs))))
                  (to_string val) 0 0 [] of
             (chunk, escaped) \<Rightarrow>
               if chunk = 0 then val
               else if chunk < length xs then Str (escaped @ to_string (Arr (drop chunk xs)))
               else Str escaped)
      | _ \<Rightarrow> val)"

text \<open>The text a template literal makes of \<^verbatim>\<open>this.sqlEscape(val)\<close>.\<close>

definition escaped_text :: "jsval \<Rightarrow> string" where
  "escaped_text val = to_string (sqlEscape val)"

section \<open>Builder state\<close>

text \<open>
  The fields of the class, as the constructor declares them.  \<open>sql_params\<close> is a
  JavaScript array used as an object too: it is kept as its property lookup, keyed by
  the property name, so that index \<open>i\<close> is the key \<open>show_nat i\<close> and
  \<^verbatim>\<open>k in this.sql_params\<close> is \<open>sql_params b k \<noteq> None\<close>.  The lookup holds the supplied
  parameters only.  The built-in properties of an array (\<^verbatim>\<open>length\<close> and the inherited
  methods) are not in it: a named placeholder spelled like one of them, such as
  \<^verbatim>\<open>?:length\<close>, is outside the model.
\<close>

record builder =
  sql_select :: jsval
  sql_insert :: jsval
  sql_update :: jsval
  sql_delete :: jsval
  sql_where :: "jsval list"
  sql_joins :: "jsval list"
  sql_having :: "jsval list"
  sql_group :: "jsval list"
  sql_order :: "jsval list"
  sql_limit :: "string option"
  sql_mode :: "string option"
  sql_params :: "string \<rightharpoonup> jsval"
  sql_identifiers :: "jsval list"
  sql_param_counter :: nat

definition constructor :: builder where
  "constructor =
     \<lparr> sql_select = Arr [], sql_insert = Arr [], sql_update = Arr [], sql_delete = Arr [],
       sql_where = [], sql_joins = [], sql_having = [], sql_group = [], sql_order = [],
       sql_limit = None, sql_mode = None, sql_params = Map.empty, sql_identifiers = [],
       sql_param_counter = 0 \<rparr>"

section \<open>Identifier quoting\<close>

text \<open>The character classes \<^verbatim>\<open>[a-zA-Z_0-9]\<close> and \<^verbatim>\<open>[a-zA-Z_0-9*]\<close>.\<close>

definition word_chars :: string where
  "word_chars = ''abcdefghijklmnopqrstuvwxyzABCDEFGHIJKLMNOPQRSTUVWXYZ_0123456789''"

definition word_char :: "char \<Rightarrow> bool" where
  "word_char c \<longleftrightarrow> c \<in> set word_chars"

definition star_word_char :: "char \<Rightarrow> bool" where
  "star_word_char c \<longleftrightarrow> word_char c \<or> c = CHR ''*''"

text \<open>\<^verbatim>\<open>s.split('.')\<close> for a one-character separator.\<close>

fun split_on :: "char \<Rightarrow> string \<Rightarrow> string list" where
  "split_on d [] = [[]]"
| "split_on d (c # cs) =
     (if c = d then [] # split_on d cs
      else (case split_on d cs of [] \<Rightarrow> [[c]] | w # ws \<Rightarrow> (c # w) # ws))"

text \<open>
  A match of \<^verbatim>\<open>/([a-zA-Z_0-9]+\.[a-zA-Z_0-9*]+)/\<close> that starts at the head of the text:
  the matched text and what follows it.  Both runs are greedy, and neither can give
  a character back, since the character after a run is outside its class.
\<close>

definition match_dotted :: "string \<Rightarrow> (string \<times> string) option" where
  "match_dotted s =
     (if takeWhile word_char s = [] then None
      else (case dropWhile word_char s of
              [] \<Rightarrow> None
            | c # r \<Rightarrow>
                if c = CHR ''.'' \<and> takeWhile star_word_char r \<noteq> []
                then Some (takeWhile word_char s @ ''.'' @ takeWhile star_word_char r,
                           dropWhile star_word_char r)
                else None))"

text \<open>
  The callback of the first \<^verbatim>\<open>replace\<close>: the replacement text, and whether it set
  \<^verbatim>\<open>modified\<close>.
\<close>

definition quote_words :: "jsval list \<Rightarrow> string \<Rightarrow> string \<times> bool" where
  "quote_words ids m =
     (let words = split_on CHR ''.'' m in
      if words \<noteq> [] \<and> Str (hd words) \<notin> set ids then (m, False)
      else (join ''.'' (map (\<lambda>w. if w = ''*'' then w
                                   else ''`'' @ escaped_text (Str w) @ ''`'') words),
            True))"

text \<open>
  \<^verbatim>\<open>String(val).replace(RegExp(..., 'g'), callback)\<close>: the leftmost match is replaced
  and the scan goes on after it; where no match starts, one character is copied.
\<close>

function replace_dotted :: "jsval list \<Rightarrow> string \<Rightarrow> string \<times> bool" where
  "replace_dotted ids [] = ([], False)"
| "replace_dotted ids (c # cs) =
     (case match_dotted (c # cs) of
        Some (m, rest) \<Rightarrow>
          (case quote_words ids m of
             (r, md) \<Rightarrow> (case replace_dotted ids rest of (t, md') \<Rightarrow> (r @ t, md \<or> md')))
      | None \<Rightarrow> (case replace_dotted ids cs of (t, md) \<Rightarrow> (c # t, md)))"
  by pat_completeness auto

lemma match_dotted_shorter: "match_dotted s = Some (m, rest) \<Longrightarrow> length rest < length s"
proof -
  assume a: "match_dotted s = Some (m, rest)"
  from a have ne: "takeWhile word_char s \<noteq> []"
    by (auto simp: match_dotted_def split: if_splits)
  from a obtain r where r: "dropWhile word_char s = CHR ''.'' # r" "rest = dropWhile star_word_char r"
    by (auto simp: match_dotted_def split: if_splits list.splits)
  have "length s = length (takeWhile word_char s) + length (dropWhile word_char s)"
    by (metis length_append takeWhile_dropWhile_id)
  moreover have "length rest \<le> length r"
    by (simp add: r(2) length_dropWhile_le)
  moreover have "0 < length (takeWhile word_char s)"
    using ne by simp
  ultimately show ?thesis
    by (simp add: r(1))
qed

termination replace_dotted
  by (relation "measure (\<lambda>(ids, s). length s)") (auto dest: match_dotted_shorter)

text \<open>A match of \<^verbatim>\<open>/(as|AS) ([a-zA-Z0-9_]+)/\<close> at the head of the text: the column, the rest.\<close>

definition match_as :: "string \<Rightarrow> (string \<times> string) option" where
  "match_as s =
     (if (take 3 s = ''as '' \<or> take 3 s = ''AS '') \<and> takeWhile word_char (drop 3 s) \<noteq> []
      then Some (takeWhile word_char (drop 3 s), dropWhile word_char (drop 3 s))
      else None)"

function replace_as :: "string \<Rightarrow> string \<times> bool" where
  "replace_as [] = ([], False)"
| "replace_as (c # cs) =
     (case match_as (c # cs) of
        Some (column, rest) \<Rightarrow>
          (case replace_as rest of
             (t, md) \<Rightarrow> (''AS `'' @ escaped_text (Str column) @ ''`'' @ t, True))
      | None \<Rightarrow> (case replace_as cs of (t, md) \<Rightarrow> (c # t, md)))"
  by pat_completeness auto

lemma match_as_shorter: "match_as s = Some (column, rest) \<Longrightarrow> length rest < length s"
proof -
  assume a: "match_as s = Some (column, rest)"
  then have rest: "rest = dropWhile word_char (drop 3 s)"
    and ne: "takeWhile word_char (drop 3 s) \<noteq> []"
    by (auto simp: match_as_def split: if_splits)
  from ne have "drop 3 s \<noteq> []" by auto
  then have "3 < length s" by simp
  moreover have "length rest \<le> length (drop 3 s)"
    unfolding rest by (rule length_dropWhile_le)
  ultimately show ?thesis by simp
qed

termination replace_as
  by (relation "measure length") (auto dest: match_as_shorter)

text \<open>\<^verbatim>\<open>identifier(val, force_quote)\<close>.\<close>

definition "identifier" :: "builder \<Rightarrow> jsval \<Rightarrow> bool \<Rightarrow> string" where
  "identifier b val force_quote =
     (case replace_dotted (sql_identifiers b) (to_string val) of
        (val1, modified1) \<Rightarrow>
          (case replace_as val1 of
             (val2, modified2) \<Rightarrow>
               if \<not> (modified1 \<or> modified2) \<and> force_quote \<and> CHR '' '' \<notin> set val2
               then ''`'' @ escaped_text (Str val2) @ ''`''
               else val2))"

section \<open>Value resolver\<close>

text \<open>The truth value of \<^verbatim>\<open>val\<close> in a condition.\<close>

fun truthy :: "jsval \<Rightarrow> bool" where
  "truthy Undefined = False"
| "truthy Null = False"
| "truthy (Bool b) = b"
| "truthy (Num n) = (n \<noteq> 0)"
| "truthy (Str s) = (s \<noteq> [])"
| "truthy (Arr xs) = True"
| "truthy (Obj kvs) = True"

text \<open>
  \<^verbatim>\<open>quote(val, force_quote)\<close>, as the text its result prints to.  The \<^verbatim>\<open>switch\<close> is on
  \<^verbatim>\<open>typeof val\<close>; its first label is the string \<^verbatim>\<open>'bool'\<close>.
\<close>

definition quote :: "jsval \<Rightarrow> bool \<Rightarrow> string" where
  "quote val force_quote =
     (if typeof val = ''bool'' then (if truthy val then ''1'' else ''0'')
      else if typeof val = ''number''
        then (if force_quote then [CHR 0x27] @ to_string val @ [CHR 0x27] else to_string val)
      else if typeof val = ''object'' then (if val = Null then ''NULL'' else [])
      else [CHR 0x27] @ escaped_text val @ [CHR 0x27])"

text \<open>
  The first match of \<^verbatim>\<open>/\?\:([a-zA-Z_0-9]+)/\<close> in the text, which is \<^verbatim>\<open>matches[0]\<close>
  when \<^verbatim>\<open>matches != null\<close>.
\<close>

fun first_named :: "string \<Rightarrow> string option" where
  "first_named [] = None"
| "first_named (c # cs) =
     (if take 2 (c # cs) = ''?:'' \<and> takeWhile word_char (drop 2 (c # cs)) \<noteq> []
      then Some (''?:'' @ takeWhile word_char (drop 2 (c # cs)))
      else first_named cs)"

text \<open>\<^verbatim>\<open>s.replace('?:', '')\<close>: the first occurrence of the two characters is removed.\<close>

fun remove_marker :: "string \<Rightarrow> string" where
  "remove_marker [] = []"
| "remove_marker (c # cs) = (if take 2 (c # cs) = ''?:'' then drop 1 cs else c # remove_marker cs)"

text \<open>
  \<^verbatim>\<open>identifierOrQuote(val, force_quote)\<close>: the text its result prints to, and the builder
  afterwards (the positional cursor may have moved).
\<close>

definition identifierOrQuote :: "builder \<Rightarrow> jsval \<Rightarrow> bool \<Rightarrow> string \<times> builder" where
  "identifierOrQuote b val force_quote =
     (if typeof val = ''bool'' then (if truthy val then ''1'' else ''0'', b)
      else if typeof val = ''number''
        then (if force_quote then [CHR 0x27] @ to_string val @ [CHR 0x27] else to_string val, b)
      else if typeof val = ''object'' \<and> val = Null then (''NULL'', b)
      else
        (case (if val = Str ''?'' then sql_params b (show_nat (sql_param_counter b)) else None) of
           Some p \<Rightarrow> (quote p force_quote, b\<lparr>sql_param_counter := Suc (sql_param_counter b)\<rparr>)
         | None \<Rightarrow>
             (case (case first_named (to_string val) of
                      None \<Rightarrow> None
                    | Some m \<Rightarrow> sql_params b (remove_marker m)) of
                Some p \<Rightarrow> (quote p force_quote, b)
              | None \<Rightarrow> (identifier b val force_quote, b))))"

section \<open>Objects and enumeration\<close>

text \<open>
  \<^verbatim>\<open>for (let i in v)\<close>: the keys it visits, and the values \<^verbatim>\<open>v[i]\<close> at those keys.  A
  string is enumerated by its indices; \<^verbatim>\<open>null\<close>, \<^verbatim>\<open>undefined\<close>, numbers and booleans
  have nothing to enumerate.
\<close>

fun for_in_keys :: "jsval \<Rightarrow> string list" where
  "for_in_keys (Arr xs) = map show_nat [0..<length xs]"
| "for_in_keys (Obj kvs) = map fst kvs"
| "for_in_keys (Str s) = map show_nat [0..<length s]"
| "for_in_keys v = []"

fun for_in_values :: "jsval \<Rightarrow> jsval list" where
  "for_in_values (Arr xs) = xs"
| "for_in_values (Obj kvs) = map snd kvs"
| "for_in_values (Str s) = map (\<lambda>c. Str [c]) s"
| "for_in_values v = []"

text \<open>
  The property lookup of an object or array: \<^verbatim>\<open>k in v\<close> is \<open>props_of v k \<noteq> None\<close> and
  \<^verbatim>\<open>v[k]\<close> is \<open>get_prop v k\<close>.  Only own enumerable properties are listed; the
  builder never asks an array for \<^verbatim>\<open>length\<close> through \<^verbatim>\<open>in\<close>, nor an object for a name it
  inherits.
\<close>

fun props_of :: "jsval \<Rightarrow> (string \<rightharpoonup> jsval)" where
  "props_of (Obj kvs) = map_of kvs"
| "props_of (Arr xs) = map_of (zip (map show_nat [0..<length xs]) xs)"
| "props_of v = Map.empty"

definition get_prop :: "jsval \<Rightarrow> string \<Rightarrow> jsval" where
  "get_prop v k = (case props_of v k of None \<Rightarrow> Undefined | Some x \<Rightarrow> x)"

text \<open>\<^verbatim>\<open>k in v\<close>, which raises a \<^verbatim>\<open>TypeError\<close> when \<^verbatim>\<open>v\<close> is not an object.\<close>

definition has_prop :: "jsval \<Rightarrow> string \<Rightarrow> error + bool" where
  "has_prop v k =
     (if typeof v = ''object'' \<and> v \<noteq> Null then Inr (props_of v k \<noteq> None) else Inl TypeError)"

text \<open>
  \<^verbatim>\<open>[...v]\<close>: an array is copied, a string gives its characters, and any other value
  of the model is not iterable.
\<close>

fun spread :: "jsval \<Rightarrow> error + jsval" where
  "spread (Arr xs) = Inr (Arr xs)"
| "spread (Str s) = Inr (Arr (map (\<lambda>c. Str [c]) s))"
| "spread v = Inl TypeError"

section \<open>Condition compiler\<close>

text \<open>A fragment is a string or \<^verbatim>\<open>null\<close>; \<^verbatim>\<open>join\<close> prints \<^verbatim>\<open>null\<close> as the empty string.\<close>

definition join_frags :: "string \<Rightarrow> string option list \<Rightarrow> string" where
  "join_frags sep fs = join sep (map (\<lambda>f. case f of None \<Rightarrow> [] | Some t \<Rightarrow> t) fs)"

text \<open>The loops that resolve every entry in turn, the cursor threaded through.\<close>

fun resolve_all :: "builder \<Rightarrow> jsval list \<Rightarrow> bool \<Rightarrow> string list \<times> builder" where
  "resolve_all b [] force_quote = ([], b)"
| "resolve_all b (v # vs) force_quote =
     (case identifierOrQuote b v force_quote of
        (t, b1) \<Rightarrow> (case resolve_all b1 vs force_quote of (ts, b2) \<Rightarrow> (t # ts, b2)))"

text \<open>
  The template \<^verbatim>\<open>`${this.identifierOrQuote(condition[0])} OP ${this.identifierOrQuote(condition[2])}`\<close>:
  the column is resolved first.
\<close>

definition comparison :: "builder \<Rightarrow> jsval \<Rightarrow> string \<Rightarrow> jsval \<Rightarrow> string \<times> builder" where
  "comparison b column op val =
     (case identifierOrQuote b column False of
        (l, b1) \<Rightarrow> (case identifierOrQuote b1 val False of (r, b2) \<Rightarrow> (l @ op @ r, b2)))"

text \<open>
  \<^verbatim>\<open>processCondition(condition)\<close>, on the entries of the array \<^verbatim>\<open>condition\<close>.  The result
  is \<open>None\<close> for \<^verbatim>\<open>return null\<close>.  In the \<^verbatim>\<open>between\<close>, \<^verbatim>\<open>in\<close> and \<^verbatim>\<open>not in\<close> cases the
  loop over the value runs before the template resolves the column; the loop of
  \<^verbatim>\<open>between\<close> hands the enumerated key to the resolver, without a second argument.
\<close>

definition processCondition :: "builder \<Rightarrow> jsval list \<Rightarrow> error + (string option \<times> builder)" where
  "processCondition b condition =
     (if length condition \<noteq> 3 then Inr (None, b)
      else
        (let c0 = condition ! 0; op = condition ! 1; c2 = condition ! 2 in
         if op = Str ''='' then
           (case comparison b c0 '' = '' c2 of (t, b1) \<Rightarrow> Inr (Some t, b1))
         else if op = Str ''<='' then
           (case comparison b c0 '' <= '' c2 of (t, b1) \<Rightarrow> Inr (Some t, b1))
         else if op = Str ''>='' then
           (case comparison b c0 '' >= '' c2 of (t, b1) \<Rightarrow> Inr (Some t, b1))
         else if op = Str ''<'' then
           (case comparison b c0 '' < '' c2 of (t, b1) \<Rightarrow> Inr (Some t, b1))
         else if op = Str ''>'' then
           (case comparison b c0 '' > '' c2 of (t, b1) \<Rightarrow> Inr (Some t, b1))
         else if op = Str ''!='' then
           (case comparison b c0 '' != '' c2 of (t, b1) \<Rightarrow> Inr (Some t, b1))
         else if op = Str ''<>'' then
           (case comparison b c0 '' != '' c2 of (t, b1) \<Rightarrow> Inr (Some t, b1))
         else if op = Str ''is'' then
           (case comparison b c0 '' IS '' c2 of (t, b1) \<Rightarrow> Inr (Some t, b1))
         else if op = Str ''is not'' then
           (case comparison b c0 '' IS NOT '' c2 of (t, b1) \<Rightarrow> Inr (Some t, b1))
         else if op = Str ''between'' then
           (if typeof c2 \<noteq> ''object'' then Inr (None, b)
            else
              (case resolve_all b (map Str (for_in_keys c2)) False of
                 (vals, b1) \<Rightarrow>
                   (case identifierOrQuote b1 c0 False of
                      (l, b2) \<Rightarrow> Inr (Some (l @ '' BETWEEN '' @ join '' AND '' vals), b2))))
         else if op = Str ''in'' then
           (if typeof c2 \<noteq> ''object'' then Inr (None, b)
            else
              (case resolve_all b (for_in_values c2) True of
                 (vals, b1) \<Rightarrow>
                   (case identifierOrQuote b1 c0 False of
                      (l, b2) \<Rightarrow> Inr (Some (l @ '' IN ('' @ join '','' vals @ '')''), b2))))
         else if op = Str ''not in'' then
           (if typeof c2 \<noteq> ''object'' then Inr (None, b)
            else
              (case resolve_all b (for_in_values c2) True of
                 (vals, b1) \<Rightarrow>
                   (case identifierOrQuote b1 c0 False of
                      (l, b2) \<Rightarrow> Inr (Some (l @ '' NOT IN ('' @ join '','' vals @ '')''), b2))))
         else if op = Str ''contains'' then
           (case identifierOrQuote b c0 False of
              (l, b1) \<Rightarrow>
                Inr (Some (l @ '' LIKE '' @ [CHR 0x27] @ ''%'' @ escaped_text c2 @ ''%'' @ [CHR 0x27]), b1))
         else if op = Str ''begins'' then
           (case identifierOrQuote b c0 False of
              (l, b1) \<Rightarrow>
                Inr (Some (l @ '' LIKE '' @ [CHR 0x27] @ escaped_text c2 @ ''%'' @ [CHR 0x27]), b1))
         else if op = Str ''ends'' then
           (case identifierOrQuote b c0 False of
              (l, b1) \<Rightarrow>
                Inr (Some (l @ '' LIKE '' @ [CHR 0x27] @ ''%'' @ escaped_text c2 @ [CHR 0x27]), b1))
         else if op = Str ''in set'' then
           (case identifierOrQuote b c0 False of
              (l, b1) \<Rightarrow> Inr (Some (''FIND_IN_SET('' @ l @ '', '' @ quote c2 False @ '')''), b1))
         else Inl UnknownClause))"

text \<open>
  The group branch of \<^verbatim>\<open>processConditions\<close>: a lower-case key is rewritten to its
  upper-case form (\<^verbatim>\<open>and\<close> first, else \<^verbatim>\<open>or\<close>), then \<^verbatim>\<open>combine\<close> is \<^verbatim>\<open>OR\<close> when that key is
  present and \<^verbatim>\<open>AND\<close> otherwise.  The result is \<^verbatim>\<open>combine\<close> with \<^verbatim>\<open>conditions[i][combine]\<close>.
  In the code the rewrite changes the stored object.  The model reads the object as
  it was registered and does not store the rewritten one: it describes the first
  visit of a group object, that is, the first \<^verbatim>\<open>build\<close> of a builder none of whose
  group objects is shared between two places.  A second visit of an object that had
  both \<^verbatim>\<open>and\<close> and \<^verbatim>\<open>or\<close> would rewrite \<^verbatim>\<open>or\<close> as well, and is outside the model.
\<close>

definition normalise_keys :: "(string \<rightharpoonup> jsval) \<Rightarrow> error + (string \<rightharpoonup> jsval)" where
  "normalise_keys props =
     (case props ''and'' of
        Some v \<Rightarrow>
          (case spread v of
             Inl e \<Rightarrow> Inl e
           | Inr a \<Rightarrow> Inr ((props(''AND'' \<mapsto> a))(''and'' := None)))
      | None \<Rightarrow>
          (case props ''or'' of
             Some v \<Rightarrow>
               (case spread v of
                  Inl e \<Rightarrow> Inl e
                | Inr a \<Rightarrow> Inr ((props(''OR'' \<mapsto> a))(''or'' := None)))
           | None \<Rightarrow> Inr props))"

definition group_children :: "jsval \<Rightarrow> error + (string \<times> jsval)" where
  "group_children item =
     (case normalise_keys (props_of item) of
        Inl e \<Rightarrow> Inl e
      | Inr props \<Rightarrow>
          (let combine = (if props ''OR'' \<noteq> None then ''OR'' else ''AND'') in
           Inr (combine, case props combine of None \<Rightarrow> Undefined | Some v \<Rightarrow> v)))"

text \<open>\<^verbatim>\<open>Array.isArray(v) && v.length == 3\<close>, and the entries of an array.\<close>

fun is_triple :: "jsval \<Rightarrow> bool" where
  "is_triple (Arr xs) = (length xs = 3)"
| "is_triple v = False"

fun entries :: "jsval \<Rightarrow> jsval list" where
  "entries (Arr xs) = xs"
| "entries v = []"

text \<open>A measure for the recursion of \<^verbatim>\<open>processConditions\<close> into the children of a group.\<close>

fun weight :: "jsval \<Rightarrow> nat" where
  "weight (Arr xs) = Suc (sum_list (map (\<lambda>x. Suc (weight x)) xs))"
| "weight (Obj kvs) = Suc (sum_list (map (\<lambda>p. Suc (weight (snd p))) kvs))"
| "weight (Str s) = length s"
| "weight v = 0"

fun item_weight :: "jsval \<Rightarrow> nat" where
  "item_weight (Str s) = 0"
| "item_weight v = weight v"

definition items_weight :: "jsval list \<Rightarrow> nat" where
  "items_weight xs = sum_list (map (\<lambda>x. Suc (item_weight x)) xs)"

lemma item_weight_le: "item_weight x \<le> weight x"
  by (cases x) auto

lemma items_weight_le: "items_weight xs \<le> sum_list (map (\<lambda>x. Suc (weight x)) xs)"
  unfolding items_weight_def by (induction xs) (auto simp: item_weight_le le_SucI add_le_mono)

lemma children_weight_le: "items_weight (for_in_values v) \<le> weight v"
proof (cases v)
  case (Arr xs)
  then show ?thesis using items_weight_le [of xs] by simp
next
  case (Obj kvs)
  have "items_weight (map snd kvs) \<le> sum_list (map (\<lambda>x. Suc (weight x)) (map snd kvs))"
    by (rule items_weight_le)
  with Obj show ?thesis by (simp add: comp_def)
next
  case (Str s)
  then show ?thesis by (simp add: items_weight_def comp_def sum_list_triv)
qed (simp_all add: items_weight_def)

lemma spread_values: "spread v = Inr a \<Longrightarrow> for_in_values a = for_in_values v"
  by (cases v) auto

lemma weight_member: "x \<in> set xs \<Longrightarrow> weight x < sum_list (map (\<lambda>x. Suc (weight x)) xs)"
  by (induction xs) auto

lemma props_of_weight: "props_of item k = Some v \<Longrightarrow> weight v < weight item"
proof (cases item)
  case (Arr xs)
  assume "props_of item k = Some v"
  with Arr have "v \<in> set xs" by (auto dest!: map_of_SomeD set_zip_rightD)
  with Arr show ?thesis using weight_member [of v xs] by simp
next
  case (Obj kvs)
  assume "props_of item k = Some v"
  with Obj have "v \<in> set (map snd kvs)" by (force dest!: map_of_SomeD)
  with Obj show ?thesis using weight_member [of v "map snd kvs"] by (simp add: comp_def)
qed simp_all

lemma normalise_keys_cases:
  "normalise_keys props = Inr props' \<Longrightarrow> props' k = Some c \<Longrightarrow>
   props k = Some c \<or> (\<exists>k' v. props k' = Some v \<and> spread v = Inr c)"
  by (auto simp: normalise_keys_def split: option.splits sum.splits if_splits)

lemma group_children_weight:
  assumes "group_children item = Inr (combine, children)"
    and obj: "typeof item = ''object''" "item \<noteq> Null"
  shows "items_weight (for_in_values children) < weight item"
proof -
  from assms obtain props where n: "normalise_keys (props_of item) = Inr props"
    and c: "children = (case props combine of None \<Rightarrow> Undefined | Some v \<Rightarrow> v)"
    by (auto simp: group_children_def Let_def split: sum.splits)
  show ?thesis
  proof (cases "props combine")
    case None
    with c have "children = Undefined" by simp
    moreover from obj have "0 < weight item" by (cases item) auto
    ultimately show ?thesis by (simp add: items_weight_def)
  next
    case (Some v)
    with c have cv: "children = v" by simp
    from normalise_keys_cases [OF n Some]
    consider "props_of item combine = Some v"
      | k' u where "props_of item k' = Some u" "spread u = Inr v" by blast
    then show ?thesis
    proof cases
      case 1
      then have "weight v < weight item" by (rule props_of_weight)
      with children_weight_le [of v] cv show ?thesis by simp
    next
      case 2
      then have "weight u < weight item" by (auto dest: props_of_weight)
      moreover have "for_in_values v = for_in_values u" using 2(2) by (rule spread_values)
      ultimately show ?thesis using children_weight_le [of u] cv by simp
    qed
  qed
qed

lemma group_children_measure:
  "typeof item = ''object'' \<and> item \<noteq> Null \<Longrightarrow> group_children item = Inr (combine, children) \<Longrightarrow>
   items_weight (for_in_values children) < item_weight item"
  using group_children_weight [of item combine children] by (cases item) auto

text \<open>
  \<^verbatim>\<open>processConditions(conditions)\<close>.  \<open>processItems\<close> is its loop over the enumerated
  entries and \<open>processItem\<close> the body of the loop for one entry: what the entry appends
  to \<^verbatim>\<open>list\<close>, and the builder afterwards.
\<close>

function processConditions :: "builder \<Rightarrow> jsval \<Rightarrow> error + (string option list \<times> builder)"
  and processItems :: "builder \<Rightarrow> jsval list \<Rightarrow> error + (string option list \<times> builder)"
  and processItem :: "builder \<Rightarrow> jsval \<Rightarrow> error + (string option list \<times> builder)"
where
  "processConditions b conditions = processItems b (for_in_values conditions)"
| "processItems b [] = Inr ([], b)"
| "processItems b (item # rest) =
     (case processItem b item of
        Inl e \<Rightarrow> Inl e
      | Inr (pushed, b1) \<Rightarrow>
          (case processItems b1 rest of
             Inl e \<Rightarrow> Inl e
           | Inr (list, b2) \<Rightarrow> Inr (pushed @ list, b2)))"
| "processItem b item =
     (if is_triple item then
        (case processCondition b (entries item) of
           Inl e \<Rightarrow> Inl e
         | Inr (f, b1) \<Rightarrow> Inr ([f], b1))
      else if typeof item = ''object'' \<and> item \<noteq> Null then
        (case group_children item of
           Inl e \<Rightarrow> Inl e
         | Inr (combine, children) \<Rightarrow>
             (case processConditions b children of
                Inl e \<Rightarrow> Inl e
              | Inr (conds, b1) \<Rightarrow>
                  Inr ([Some (''('' @ join_frags ('' '' @ combine @ '' '') conds @ '')'')], b1)))
      else if typeof item = ''string'' then Inr ([Some (to_string item)], b)
      else Inr ([], b))"
  by pat_completeness auto

termination
proof (relation "measure (\<lambda>x. case x of
          Inl (b, c) \<Rightarrow> Suc (2 * items_weight (for_in_values c))
        | Inr (Inl (b, items)) \<Rightarrow> 2 * items_weight items
        | Inr (Inr (b, item)) \<Rightarrow> Suc (2 * item_weight item))", goal_cases)
  case 1
  show ?case by simp
next
  case (2 b conditions)
  show ?case by simp
next
  case (3 b item rest)
  show ?case by (simp add: items_weight_def)
next
  case (4 b item rest x y z)
  show ?case by (simp add: items_weight_def)
next
  case (5 b item x combine children)
  then have "items_weight (for_in_values children) < item_weight item"
    by (intro group_children_measure [of item combine children]) auto
  then show ?case by simp
qed

declare processItem.simps [simp del]

section \<open>Clause registration\<close>

text \<open>
  \<^verbatim>\<open>table(payload)\<close>: the names are pushed to \<^verbatim>\<open>sql_identifiers\<close> before they are quoted.
  With an object payload the \<^verbatim>\<open>return\<close> stands inside the loop, so only the first
  property is read; with nothing to enumerate the result is \<^verbatim>\<open>undefined\<close>.
\<close>

definition table :: "builder \<Rightarrow> jsval \<Rightarrow> jsval \<times> builder" where
  "table b payload =
     (if typeof payload \<noteq> ''object'' then
        (let b1 = b\<lparr>sql_identifiers := sql_identifiers b @ [payload]\<rparr>
         in (Str (identifier b1 payload True), b1))
      else
        (case zip (for_in_keys payload) (for_in_values payload) of
           [] \<Rightarrow> (Undefined, b)
         | (i, v) # others \<Rightarrow>
             (let b1 = b\<lparr>sql_identifiers := sql_identifiers b @ [Str i, v]\<rparr>
              in (Obj [(identifier b1 (Str i) True, Str (identifier b1 v True))], b1))))"

definition then_do :: "error + 'a \<Rightarrow> ('a \<Rightarrow> error + 'b) \<Rightarrow> error + 'b" where
  "then_do m f = (case m of Inl e \<Rightarrow> Inl e | Inr x \<Rightarrow> f x)"

text \<open>\<^verbatim>\<open>if (!(k in payload)) throw Error(msg)\<close>.\<close>

definition require :: "jsval \<Rightarrow> string \<Rightarrow> string \<Rightarrow> error + unit" where
  "require payload k msg =
     (case has_prop payload k of
        Inl e \<Rightarrow> Inl e
      | Inr present \<Rightarrow> if present then Inr () else Inl (MissingField msg))"

definition select :: "builder \<Rightarrow> jsval \<Rightarrow> error + builder" where
  "select b payload =
     then_do (require payload ''table'' ''Select: Missing table'') (\<lambda>_.
     then_do (require payload ''columns'' ''Select: Missing columns'') (\<lambda>_.
       (case table b (get_prop payload ''table'') of
          (t, b1) \<Rightarrow>
            Inr (b1\<lparr>sql_mode := Some ''select'',
                     sql_select := Obj [(''table'', t),
                                        (''columns'', get_prop payload ''columns'')]\<rparr>))))"

text \<open>\<^verbatim>\<open>insert(payload)\<close>; a missing \<^verbatim>\<open>duplicates\<close> is set to the empty array.\<close>

definition insert_sql :: "builder \<Rightarrow> jsval \<Rightarrow> error + builder" where
  "insert_sql b payload =
     then_do (require payload ''table'' ''Insert: Missing table'') (\<lambda>_.
     then_do (require payload ''columns'' ''Insert: Missing columns'') (\<lambda>_.
       (case table b (get_prop payload ''table'') of
          (t, b1) \<Rightarrow>
            Inr (b1\<lparr>sql_mode := Some ''insert'',
                     sql_insert := Obj [(''table'', t),
                                        (''columns'', get_prop payload ''columns''),
                                        (''duplicates'',
                                           if props_of payload ''duplicates'' = None then Arr []
                                           else get_prop payload ''duplicates'')]\<rparr>))))"

definition delete :: "builder \<Rightarrow> jsval \<Rightarrow> error + builder" where
  "delete b payload =
     then_do (require payload ''table'' ''Delete: Missing table'') (\<lambda>_.
       (case table b (get_prop payload ''table'') of
          (t, b1) \<Rightarrow>
            Inr (b1\<lparr>sql_mode := Some ''delete'', sql_delete := Obj [(''table'', t)]\<rparr>)))"

definition update :: "builder \<Rightarrow> jsval \<Rightarrow> error + builder" where
  "update b payload =
     then_do (require payload ''table'' ''Update: Missing table'') (\<lambda>_.
     then_do (require payload ''columns'' ''Update: Missing columns'') (\<lambda>_.
       (case table b (get_prop payload ''table'') of
          (t, b1) \<Rightarrow>
            Inr (b1\<lparr>sql_mode := Some ''update'',
                     sql_update := Obj [(''table'', t),
                                        (''columns'', get_prop payload ''columns'')]\<rparr>))))"

text \<open>
  \<^verbatim>\<open>joins(payload)\<close>, entry by entry.  An error leaves the method at once; the model
  does not keep the builder as it stood at that moment.
\<close>

fun joins_loop :: "builder \<Rightarrow> jsval list \<Rightarrow> error + builder" where
  "joins_loop b [] = Inr b"
| "joins_loop b (j # js) =
     then_do (require j ''type'' ''Joins: Missing type'') (\<lambda>_.
     then_do (require j ''table'' ''Joins: Missing table'') (\<lambda>_.
     then_do (require j ''conditions'' ''Joins: Missing conditions'') (\<lambda>_.
       (case table b (get_prop j ''table'') of
          (t, b1) \<Rightarrow>
            joins_loop
              (b1\<lparr>sql_joins := sql_joins b1 @
                        [Obj [(''type'', get_prop j ''type''), (''table'', t),
                              (''conditions'', get_prop j ''conditions'')]]\<rparr>)
              js))))"

definition joins :: "builder \<Rightarrow> jsval \<Rightarrow> error + builder" where
  "joins b payload = joins_loop b (for_in_values payload)"

definition order :: "builder \<Rightarrow> jsval \<Rightarrow> error + builder" where
  "order b payload = Inr (b\<lparr>sql_order := sql_order b @ for_in_values payload\<rparr>)"

definition group_sql :: "builder \<Rightarrow> jsval \<Rightarrow> error + builder" where
  "group_sql b payload = Inr (b\<lparr>sql_group := sql_group b @ for_in_values payload\<rparr>)"

text \<open>\<^verbatim>\<open>where(payload)\<close>.\<close>

definition where_sql :: "builder \<Rightarrow> jsval \<Rightarrow> error + builder" where
  "where_sql b payload = Inr (b\<lparr>sql_where := sql_where b @ for_in_values payload\<rparr>)"

definition having :: "builder \<Rightarrow> jsval \<Rightarrow> error + builder" where
  "having b payload = Inr (b\<lparr>sql_having := sql_having b @ for_in_values payload\<rparr>)"

text \<open>
  \<^verbatim>\<open>parseInt(text)\<close> on the text of its argument: leading white space, a sign, an
  optional \<^verbatim>\<open>0x\<close> prefix, then the longest run of digits; \<open>None\<close> stands for \<^verbatim>\<open>NaN\<close>.
  White space is the white space among the code units below \<open>0x100\<close>.  The value is
  the exact integer, which is the machine's result up to \<open>2^53\<close>; a longer run of
  digits is rounded by the machine and is outside the model, as every number that is
  not such an integer is.
\<close>

definition is_space :: "char \<Rightarrow> bool" where
  "is_space c \<longleftrightarrow>
     c \<in> set [CHR 0x09, CHR 0x0A, CHR 0x0B, CHR 0x0C, CHR 0x0D, CHR 0x20, CHR 0xA0]"

definition digit_value :: "char \<Rightarrow> nat option" where
  "digit_value = map_of (zip ''0123456789abcdefABCDEF''
                             [0, 1, 2, 3, 4, 5, 6, 7, 8, 9, 10, 11, 12, 13, 14, 15,
                              10, 11, 12, 13, 14, 15])"

definition is_digit :: "nat \<Rightarrow> char \<Rightarrow> bool" where
  "is_digit radix c = (case digit_value c of None \<Rightarrow> False | Some d \<Rightarrow> d < radix)"

definition digits_value :: "nat \<Rightarrow> string \<Rightarrow> int" where
  "digits_value radix ds =
     foldl (\<lambda>acc c. acc * int radix + (case digit_value c of None \<Rightarrow> 0 | Some d \<Rightarrow> int d)) 0 ds"

definition parseInt :: "string \<Rightarrow> int option" where
  "parseInt text =
     (let s1 = dropWhile is_space text;
          negative = (take 1 s1 = ''-'');
          s2 = (if take 1 s1 = ''-'' \<or> take 1 s1 = ''+'' then drop 1 s1 else s1);
          radix = (if take 2 s2 = ''0x'' \<or> take 2 s2 = ''0X'' then 16 else 10);
          s3 = (if radix = 16 then drop 2 s2 else s2);
          ds = takeWhile (is_digit radix) s3
      in if ds = [] then None
         else Some (if negative then - digits_value radix ds else digits_value radix ds))"

text \<open>\<^verbatim>\<open>limit(val)\<close>; \<^verbatim>\<open>isNaN\<close> turns a failed \<^verbatim>\<open>parseInt\<close> into 0.\<close>

definition or_zero :: "int option \<Rightarrow> int" where
  "or_zero r = (case r of None \<Rightarrow> 0 | Some n \<Rightarrow> n)"

definition set_limit :: "builder \<Rightarrow> int \<Rightarrow> int \<Rightarrow> builder" where
  "set_limit b offset lim =
     (if offset > 0
        then b\<lparr>sql_limit := Some (''LIMIT '' @ show_int offset @ '', '' @ show_int lim @ [CHR 0x0A])\<rparr>
      else if lim > 0
        then b\<lparr>sql_limit := Some (''LIMIT '' @ show_int lim @ [CHR 0x0A])\<rparr>
      else b)"

definition limit :: "builder \<Rightarrow> jsval \<Rightarrow> error + builder" where
  "limit b val =
     (if typeof val = ''number'' \<or> typeof val = ''string''
        then Inr (set_limit b 0 (or_zero (parseInt (to_string val))))
      else if typeof val = ''object'' then
        then_do (has_prop val ''0'') (\<lambda>has0.
        then_do (has_prop val ''1'') (\<lambda>has1.
          Inr (set_limit b
                 (if has0 then or_zero (parseInt (to_string (get_prop val ''0''))) else 0)
                 (if has1 then or_zero (parseInt (to_string (get_prop val ''1''))) else 0))))
      else Inr (set_limit b 0 0))"

text \<open>
  \<^verbatim>\<open>params(params)\<close>: \<^verbatim>\<open>this.sql_params[i] = params[i]\<close> for every enumerated key.
  \<^verbatim>\<open>sql_params\<close> is an array, so the key \<^verbatim>\<open>length\<close> is not stored like the others: the
  language converts the value to a number and raises a \<^verbatim>\<open>RangeError\<close> unless that number
  is an integer from 0 to \<open>2^32 - 1\<close>; a valid length \<open>n\<close> removes every array index from
  \<open>n\<close> on.  An array index is a key that is the decimal form of a number below
  \<open>2^32 - 1\<close>.

  The conversion of a \<^emph>\<open>text\<close> to a number (signs, fractions, exponents, rounding to
  a floating-point value) is the language's, not the builder's: it is the parameter
  \<open>text_length\<close>, which gives the array length a text stands for, when it stands for
  one.  Every theorem holds whatever this conversion is.  The key \<^verbatim>\<open>__proto__\<close>, which
  the language does not store as a property either, is outside the model.
\<close>

definition array_length :: "(string \<Rightarrow> int option) \<Rightarrow> jsval \<Rightarrow> int option" where
  "array_length text_length v =
     (case v of
        Undefined \<Rightarrow> None
      | Null \<Rightarrow> Some 0
      | Bool t \<Rightarrow> Some (if t then 1 else 0)
      | Num n \<Rightarrow> if 0 \<le> n \<and> n < 4294967296 then Some n else None
      | Str s \<Rightarrow> text_length s
      | Arr xs \<Rightarrow> text_length (to_string v)
      | Obj kvs \<Rightarrow> None)"

definition array_index :: "string \<Rightarrow> int option" where
  "array_index k =
     (if k \<noteq> [] \<and> list_all (is_digit 10) k \<and> (k = ''0'' \<or> take 1 k \<noteq> ''0'') \<and>
         digits_value 10 k < 4294967295
      then Some (digits_value 10 k) else None)"

definition set_length :: "int \<Rightarrow> (string \<rightharpoonup> jsval) \<Rightarrow> (string \<rightharpoonup> jsval)" where
  "set_length n m =
     (\<lambda>k. case array_index k of
            None \<Rightarrow> m k
          | Some i \<Rightarrow> if n \<le> i then None else m k)"

fun params_loop ::
  "(string \<Rightarrow> int option) \<Rightarrow> (string \<times> jsval) list \<Rightarrow> (string \<rightharpoonup> jsval) \<Rightarrow> error + (string \<rightharpoonup> jsval)"
where
  "params_loop text_length [] m = Inr m"
| "params_loop text_length ((i, v) # rest) m =
     (if i = ''length'' then
        (case array_length text_length v of
           None \<Rightarrow> Inl RangeError
         | Some n \<Rightarrow> params_loop text_length rest (set_length n m))
      else params_loop text_length rest (m(i \<mapsto> v)))"

definition params :: "(string \<Rightarrow> int option) \<Rightarrow> builder \<Rightarrow> jsval \<Rightarrow> error + builder" where
  "params text_length b payload =
     (case params_loop text_length (zip (for_in_keys payload) (for_in_values payload))
             (sql_params b) of
        Inl e \<Rightarrow> Inl e
      | Inr m \<Rightarrow> Inr (b\<lparr>sql_params := m\<rparr>))"

section \<open>Clause assembler\<close>

text \<open>
  \<^verbatim>\<open>String(v).toUpperCase()\<close> on code units below \<open>0x100\<close>: the ASCII letters, the
  accented letters \<open>0xE0\<close> to \<open>0xFE\<close> (the division sign \<open>0xF7\<close> apart), and the sharp s
  \<open>0xDF\<close>, which becomes two letters.  The upper-case forms of \<open>0xB5\<close> and \<open>0xFF\<close> are
  code units above \<open>0xFF\<close>, which a string of the model cannot hold; they are left as
  they are.
\<close>

definition lower_letters :: string where
  "lower_letters =
     ''abcdefghijklmnopqrstuvwxyz'' @
     [CHR 0xE0, CHR 0xE1, CHR 0xE2, CHR 0xE3, CHR 0xE4, CHR 0xE5, CHR 0xE6, CHR 0xE7,
      CHR 0xE8, CHR 0xE9, CHR 0xEA, CHR 0xEB, CHR 0xEC, CHR 0xED, CHR 0xEE, CHR 0xEF,
      CHR 0xF0, CHR 0xF1, CHR 0xF2, CHR 0xF3, CHR 0xF4, CHR 0xF5, CHR 0xF6, CHR 0xF8,
      CHR 0xF9, CHR 0xFA, CHR 0xFB, CHR 0xFC, CHR 0xFD, CHR 0xFE]"

definition upper_letters :: string where
  "upper_letters =
     ''ABCDEFGHIJKLMNOPQRSTUVWXYZ'' @
     [CHR 0xC0, CHR 0xC1, CHR 0xC2, CHR 0xC3, CHR 0xC4, CHR 0xC5, CHR 0xC6, CHR 0xC7,
      CHR 0xC8, CHR 0xC9, CHR 0xCA, CHR 0xCB, CHR 0xCC, CHR 0xCD, CHR 0xCE, CHR 0xCF,
      CHR 0xD0, CHR 0xD1, CHR 0xD2, CHR 0xD3, CHR 0xD4, CHR 0xD5, CHR 0xD6, CHR 0xD8,
      CHR 0xD9, CHR 0xDA, CHR 0xDB, CHR 0xDC, CHR 0xDD, CHR 0xDE]"

definition upper_char :: "char \<Rightarrow> string" where
  "upper_char c =
     (if c = CHR 0xDF then ''SS''
      else (case map_of (zip lower_letters upper_letters) c of None \<Rightarrow> [c] | Some u \<Rightarrow> [u]))"

definition toUpperCase :: "string \<Rightarrow> string" where
  "toUpperCase s = concat (map upper_char s)"

text \<open>\<^verbatim>\<open>xs.join(sep)\<close> on an array of values.\<close>

definition array_join :: "string \<Rightarrow> jsval list \<Rightarrow> string" where
  "array_join sep xs =
     join sep (map (\<lambda>x. if x = Null \<or> x = Undefined then [] else to_string x) xs)"

text \<open>
  The inner loop of \<^verbatim>\<open>processColumns\<close> over the properties \<^verbatim>\<open>j\<close> of an object entry: a
  direction other than \<^verbatim>\<open>ASC\<close> or \<^verbatim>\<open>DESC\<close> is skipped.
\<close>

fun direction_columns :: "builder \<Rightarrow> (string \<times> jsval) list \<Rightarrow> string list" where
  "direction_columns b [] = []"
| "direction_columns b ((j, d) # rest) =
     (if toUpperCase (to_string d) \<notin> set [''ASC'', ''DESC''] then direction_columns b rest
      else (identifier b (Str j) True @ '' '' @ toUpperCase (to_string d))
             # direction_columns b rest)"

fun processColumns_loop :: "builder \<Rightarrow> jsval list \<Rightarrow> string list \<times> builder" where
  "processColumns_loop b [] = ([], b)"
| "processColumns_loop b (c # cs) =
     (if typeof c = ''object'' then
        (case processColumns_loop b cs of
           (list, b1) \<Rightarrow>
             (direction_columns b (zip (for_in_keys c) (for_in_values c)) @ list, b1))
      else
        (case identifierOrQuote b c True of
           (t, b1) \<Rightarrow> (case processColumns_loop b1 cs of (list, b2) \<Rightarrow> (t # list, b2))))"

definition processColumns :: "builder \<Rightarrow> jsval \<Rightarrow> string list \<times> builder" where
  "processColumns b columns = processColumns_loop b (for_in_values columns)"

text \<open>
  \<^verbatim>\<open>processValues(columns)\<close>: \<^verbatim>\<open>list\<close> is an array used as a dictionary.  Its keys are
  quoted identifiers, never array indices, so it enumerates in the order of first
  assignment; a second assignment to a key replaces the value in place.  \<open>None\<close>
  is the \<^verbatim>\<open>undefined\<close> of the bare \<^verbatim>\<open>return\<close>.
\<close>

fun assign :: "string \<Rightarrow> string \<Rightarrow> (string \<times> string) list \<Rightarrow> (string \<times> string) list" where
  "assign k v [] = [(k, v)]"
| "assign k v ((k', v') # rest) =
     (if k = k' then (k, v) # rest else (k', v') # assign k v rest)"

fun processValues_loop ::
  "builder \<Rightarrow> (string \<times> jsval) list \<Rightarrow> (string \<times> string) list \<Rightarrow> (string \<times> string) list \<times> builder"
where
  "processValues_loop b [] list = (list, b)"
| "processValues_loop b ((i, v) # rest) list =
     (case identifierOrQuote b v False of
        (t, b1) \<Rightarrow> processValues_loop b1 rest (assign (identifier b (Str i) True) t list))"

definition processValues :: "builder \<Rightarrow> jsval \<Rightarrow> (string \<times> string) list option \<times> builder" where
  "processValues b columns =
     (if typeof columns \<noteq> ''object'' then (None, b)
      else
        (case processValues_loop b (zip (for_in_keys columns) (for_in_values columns)) [] of
           (list, b1) \<Rightarrow> (Some list, b1)))"

text \<open>
  The shared prologue of the statement builders: \<^verbatim>\<open>table\<close> and \<^verbatim>\<open>alias\<close> start as
  \<^verbatim>\<open>null\<close>; an object gives its last property, anything else is the table itself.
\<close>

definition table_alias :: "jsval \<Rightarrow> jsval \<times> jsval" where
  "table_alias t =
     (if typeof t = ''object''
      then fold (\<lambda>(i, a) _. (Str i, a)) (zip (for_in_keys t) (for_in_values t)) (Null, Null)
      else (t, Null))"

definition as_alias :: "jsval \<Rightarrow> string" where
  "as_alias alias = (if truthy alias then '' AS '' @ to_string alias else [])"

definition buildSelect :: "builder \<Rightarrow> string \<times> builder" where
  "buildSelect b =
     (case processColumns b (get_prop (sql_select b) ''columns'') of
        (columns, b1) \<Rightarrow>
          (case table_alias (get_prop (sql_select b) ''table'') of
             (t, alias) \<Rightarrow>
               (''SELECT '' @ join ('','' @ [CHR 0x0A]) columns @ [CHR 0x0A] @
                ''FROM '' @ to_string t @ as_alias alias @ [CHR 0x0A], b1)))"

text \<open>
  \<^verbatim>\<open>buildInsert()\<close>.  \<^verbatim>\<open>this.sql_insert.duplicates.length\<close> raises on \<^verbatim>\<open>null\<close> and
  \<^verbatim>\<open>undefined\<close>; when it is truthy, \<^verbatim>\<open>join\<close> is called, which only an array has.
\<close>

definition duplicates_clause :: "jsval \<Rightarrow> error + string" where
  "duplicates_clause d =
     (case d of
        Undefined \<Rightarrow> Inl TypeError
      | Null \<Rightarrow> Inl TypeError
      | Arr xs \<Rightarrow>
          if xs = [] then Inr []
          else Inr (''ON DUPLICATE KEY UPDATE '' @ array_join ('','' @ [CHR 0x0A]) xs @ [CHR 0x0A])
      | Str s \<Rightarrow> if s = [] then Inr [] else Inl TypeError
      | Obj kvs \<Rightarrow> if truthy (get_prop d ''length'') then Inl TypeError else Inr []
      | _ \<Rightarrow> Inr [])"

definition buildInsert :: "builder \<Rightarrow> error + (string \<times> builder)" where
  "buildInsert b =
     (case processValues b (get_prop (sql_insert b) ''columns'') of
        (columns, b1) \<Rightarrow>
          (let pairs = (case columns of None \<Rightarrow> [] | Some list \<Rightarrow> list) in
           then_do (duplicates_clause (get_prop (sql_insert b) ''duplicates'')) (\<lambda>dup.
             Inr (''INSERT INTO '' @ to_string (get_prop (sql_insert b) ''table'') @
                  '' ('' @ join '', '' (map fst pairs) @ '')'' @ [CHR 0x0A] @
                  ''VALUES ('' @ join '', '' (map snd pairs) @ '')'' @ [CHR 0x0A] @ dup, b1))))"

definition buildUpdate :: "builder \<Rightarrow> string \<Rightarrow> string \<times> builder" where
  "buildUpdate b joins_text =
     (case processValues b (get_prop (sql_update b) ''columns'') of
        (columns, b1) \<Rightarrow>
          (let pairs = (case columns of None \<Rightarrow> [] | Some list \<Rightarrow> list) in
           case table_alias (get_prop (sql_update b) ''table'') of
             (t, alias) \<Rightarrow>
               (''UPDATE '' @ to_string t @ as_alias alias @ [CHR 0x0A] @
                joins_text @ ''SET '' @
                join ('','' @ [CHR 0x0A]) (map (\<lambda>(i, v). i @ '' = '' @ v) pairs) @ [CHR 0x0A], b1)))"

definition buildDelete :: "builder \<Rightarrow> string" where
  "buildDelete b =
     (case table_alias (get_prop (sql_delete b) ''table'') of
        (t, alias) \<Rightarrow>
          ''DELETE '' @ (if truthy alias then to_string alias else []) @ [CHR 0x0A] @
          ''FROM '' @ to_string t @ as_alias alias @ [CHR 0x0A])"

definition and_line :: string where
  "and_line = [CHR 0x0A] @ ''AND ''"

definition buildJoin :: "builder \<Rightarrow> jsval \<Rightarrow> error + (string \<times> builder)" where
  "buildJoin b j =
     then_do (processConditions b (get_prop j ''conditions'')) (\<lambda>(conditions, b1).
       (case table_alias (get_prop j ''table'') of
          (t, alias) \<Rightarrow>
            Inr (toUpperCase (to_string (get_prop j ''type'')) @ '' JOIN '' @ to_string t @
                 as_alias alias @ [CHR 0x0A] @
                 ''ON '' @ join_frags and_line conditions @ [CHR 0x0A], b1)))"

definition buildWhere :: "builder \<Rightarrow> error + (string \<times> builder)" where
  "buildWhere b =
     then_do (processConditions b (Arr (sql_where b))) (\<lambda>(conditions, b1).
       Inr (''WHERE '' @ join_frags and_line conditions @ [CHR 0x0A], b1))"

definition buildHaving :: "builder \<Rightarrow> error + (string \<times> builder)" where
  "buildHaving b =
     then_do (processConditions b (Arr (sql_having b))) (\<lambda>(conditions, b1).
       Inr (''HAVING '' @ join_frags and_line conditions @ [CHR 0x0A], b1))"

definition buildGroup :: "builder \<Rightarrow> string \<times> builder" where
  "buildGroup b =
     (case processColumns b (Arr (sql_group b)) of
        (columns, b1) \<Rightarrow> (''GROUP BY '' @ join ('','' @ [CHR 0x0A]) columns @ [CHR 0x0A], b1))"

definition buildOrder :: "builder \<Rightarrow> string \<times> builder" where
  "buildOrder b =
     (case processColumns b (Arr (sql_order b)) of
        (columns, b1) \<Rightarrow> (''ORDER BY '' @ join ('','' @ [CHR 0x0A]) columns @ [CHR 0x0A], b1))"

text \<open>The loop \<^verbatim>\<open>for (let i in this.sql_joins) query += this.buildJoin(this.sql_joins[i])\<close>.\<close>

fun build_joins :: "builder \<Rightarrow> jsval list \<Rightarrow> error + (string \<times> builder)" where
  "build_joins b [] = Inr ([], b)"
| "build_joins b (j # js) =
     then_do (buildJoin b j) (\<lambda>(t, b1).
     then_do (build_joins b1 js) (\<lambda>(ts, b2). Inr (t @ ts, b2)))"

text \<open>The statements after the \<^verbatim>\<open>switch\<close> of \<^verbatim>\<open>build\<close>.\<close>

definition build_clauses :: "string \<Rightarrow> builder \<Rightarrow> error + (string \<times> builder)" where
  "build_clauses query b =
     then_do (if sql_where b \<noteq> [] then buildWhere b else Inr ([], b)) (\<lambda>(w, b1).
     then_do (if sql_having b1 \<noteq> [] then buildHaving b1 else Inr ([], b1)) (\<lambda>(h, b2).
       (case (if sql_group b2 \<noteq> [] then buildGroup b2 else ([], b2)) of
          (g, b3) \<Rightarrow>
            (case (if sql_order b3 \<noteq> [] then buildOrder b3 else ([], b3)) of
               (ord, b4) \<Rightarrow>
                 Inr (query @ w @ h @ g @ ord @
                        (case sql_limit b4 of None \<Rightarrow> [] | Some l \<Rightarrow> l), b4)))))"

text \<open>The \<^verbatim>\<open>switch (this.sql_mode)\<close> of \<^verbatim>\<open>build\<close>: the statement and its joins.\<close>

definition build_statement :: "builder \<Rightarrow> error + (string \<times> builder)" where
  "build_statement b =
     (if sql_mode b = Some ''select'' then
        (case buildSelect b of
           (q, b1) \<Rightarrow>
             then_do (build_joins b1 (sql_joins b1)) (\<lambda>(js, b2). Inr (q @ js, b2)))
      else if sql_mode b = Some ''insert'' then
        then_do (buildInsert b) (\<lambda>(q, b1).
        then_do (build_joins b1 (sql_joins b1)) (\<lambda>(js, b2). Inr (q @ js, b2)))
      else if sql_mode b = Some ''delete'' then
        then_do (build_joins b (sql_joins b)) (\<lambda>(js, b1). Inr (buildDelete b @ js, b1))
      else if sql_mode b = Some ''update'' then
        then_do (build_joins b (sql_joins b)) (\<lambda>(js, b1).
          (case buildUpdate b1 js of (q, b2) \<Rightarrow> Inr (q, b2)))
      else Inl UnknownQueryType)"

text \<open>\<^verbatim>\<open>build()\<close>: the query, and the builder afterwards.\<close>

definition build :: "builder \<Rightarrow> error + (string \<times> builder)" where
  "build b = then_do (build_statement b) (\<lambda>(query, b1). build_clauses query b1)"

text \<open>\<^verbatim>\<open>if (k in payload) sql.method(payload[k])\<close>.\<close>

definition when_in ::
  "jsval \<Rightarrow> string \<Rightarrow> (builder \<Rightarrow> jsval \<Rightarrow> error + builder) \<Rightarrow> builder \<Rightarrow> error + builder"
where
  "when_in payload k method b =
     then_do (has_prop payload k) (\<lambda>present.
       if present then method b (get_prop payload k) else Inr b)"

text \<open>\<^verbatim>\<open>SimpleSqlBuilder.fromJson(payload)\<close>.\<close>

definition fromJson :: "(string \<Rightarrow> int option) \<Rightarrow> jsval \<Rightarrow> error + string" where
  "fromJson text_length payload =
     then_do (when_in payload ''select'' select constructor) (\<lambda>b1.
     then_do (when_in payload ''insert'' insert_sql b1) (\<lambda>b2.
     then_do (when_in payload ''update'' update b2) (\<lambda>b3.
     then_do (when_in payload ''delete'' delete b3) (\<lambda>b4.
     then_do (when_in payload ''joins'' joins b4) (\<lambda>b5.
     then_do (when_in payload ''where'' where_sql b5) (\<lambda>b6.
     then_do (when_in payload ''having'' having b6) (\<lambda>b7.
     then_do (when_in payload ''order'' order b7) (\<lambda>b8.
     then_do (when_in payload ''group'' group_sql b8) (\<lambda>b9.
     then_do (when_in payload ''limit'' limit b9) (\<lambda>b10.
     then_do (when_in payload ''params'' (params text_length) b10) (\<lambda>b11.
     then_do (build b11) (\<lambda>(query, b12). Inr query))))))))))))"

section \<open>Method chains\<close>

text \<open>
  A use of the fluent interface that never calls \<^verbatim>\<open>select\<close>, \<^verbatim>\<open>insert\<close>, \<^verbatim>\<open>update\<close> or
  \<^verbatim>\<open>delete\<close>: the other public methods, called in any order on one instance.
\<close>

datatype call =
    Joins jsval
  | Order jsval
  | Group jsval
  | Where jsval
  | Having jsval
  | Limit jsval
  | Params jsval

fun apply_call :: "(string \<Rightarrow> int option) \<Rightarrow> builder \<Rightarrow> call \<Rightarrow> error + builder" where
  "apply_call text_length b (Joins p) = joins b p"
| "apply_call text_length b (Order p) = order b p"
| "apply_call text_length b (Group p) = group_sql b p"
| "apply_call text_length b (Where p) = where_sql b p"
| "apply_call text_length b (Having p) = having b p"
| "apply_call text_length b (Limit p) = limit b p"
| "apply_call text_length b (Params p) = params text_length b p"

fun apply_calls :: "(string \<Rightarrow> int option) \<Rightarrow> builder \<Rightarrow> call list \<Rightarrow> error + builder" where
  "apply_calls text_length b [] = Inr b"
| "apply_calls text_length b (c # cs) =
     then_do (apply_call text_length b c) (\<lambda>b1. apply_calls text_length b1 cs)"

section \<open>Scenarios\<close>

text \<open>
  The builder of the documented examples: \<^verbatim>\<open>select({table: {users: 'user'}, columns:
  ['user.*']})\<close> on a new instance (lemma \<open>select_users\<close>), which registers the table
  \<open>users\<close> and its alias \<open>user\<close>.
\<close>

definition users_payload :: jsval where
  "users_payload =
     Obj [(''table'', Obj [(''users'', Str ''user'')]), (''columns'', Arr [Str ''user.*''])]"

definition users_builder :: builder where
  "users_builder =
     constructor\<lparr>sql_select := Obj [(''table'', Obj [(''`users`'', Str ''`user`'')]),
                                      (''columns'', Arr [Str ''user.*''])],
                 sql_mode := Some ''select'',
                 sql_identifiers := [Str ''users'', Str ''user'']\<rparr>"

section \<open>Reference notions\<close>

text \<open>What the escaper is meant to compute: every character mapped on its own.\<close>

definition escape_chars :: "string \<Rightarrow> string" where
  "escape_chars s = concat (map (\<lambda>c. if special c then escape_map c else [c]) s)"

text \<open>
  The reader of a single-quoted string literal in the dialect the builder writes for
  (backtick identifiers, single-quoted literals, backslash escapes); it is not part of
  the repository.  After a backslash, \<^verbatim>\<open>0 b t n r Z\<close> stand for the control
  characters, \<^verbatim>\<open>%\<close> and \<^verbatim>\<open>_\<close> keep their backslash, and any other character stands
  for itself.  A doubled quote stands for one quote; a single quote ends the literal
  and must be the last character.  \<open>None\<close>: the text is not one literal.
\<close>

definition unescape :: "char \<Rightarrow> string" where
  "unescape c =
     (if c = CHR ''0'' then [CHR 0x00]
      else if c = CHR ''b'' then [CHR 0x08]
      else if c = CHR ''t'' then [CHR 0x09]
      else if c = CHR ''n'' then [CHR 0x0A]
      else if c = CHR ''r'' then [CHR 0x0D]
      else if c = CHR ''Z'' then [CHR 0x1A]
      else if c = CHR ''%'' \<or> c = CHR ''_'' then [CHR 0x5C, c]
      else [c])"

fun literal_body :: "string \<Rightarrow> string option" where
  "literal_body [] = None"
| "literal_body (c # cs) =
     (if c = CHR 0x27 then
        (case cs of
           [] \<Rightarrow> Some []
         | d # ds \<Rightarrow> if d = CHR 0x27 then map_option ((#) CHR 0x27) (literal_body ds) else None)
      else if c = CHR 0x5C then
        (case cs of
           [] \<Rightarrow> None
         | d # ds \<Rightarrow> map_option ((@) (unescape d)) (literal_body ds))
      else map_option ((#) c) (literal_body cs))"

definition parse_literal :: "string \<Rightarrow> string option" where
  "parse_literal s =
     (case s of [] \<Rightarrow> None | c # cs \<Rightarrow> if c = CHR 0x27 then literal_body cs else None)"


text \<open>
  Where a condition stands in a list of conditions.  \<open>holds_leaf items leaf\<close>: the
  condition \<open>leaf\<close> is an entry of \<open>items\<close>, or of the children of a group among
  \<open>items\<close>, at any depth.  \<open>reaches_leaf b items leaf\<close>: moreover every entry that
  \<^verbatim>\<open>processConditions\<close>, started on the builder \<open>b\<close>, visits before \<open>leaf\<close> is processed
  without an error, so that the loop arrives at \<open>leaf\<close>.
\<close>

inductive holds_leaf :: "jsval list \<Rightarrow> jsval \<Rightarrow> bool" where
  here: "holds_leaf (leaf # rest) leaf"
| inside: "holds_leaf (item # rest) leaf"
    if "\<not> is_triple item" and "typeof item = ''object'' \<and> item \<noteq> Null"
      and "group_children item = Inr (combine, children)"
      and "holds_leaf (for_in_values children) leaf"
| later: "holds_leaf (item # rest) leaf" if "holds_leaf rest leaf"

code_pred holds_leaf .

inductive reaches_leaf :: "builder \<Rightarrow> jsval list \<Rightarrow> jsval \<Rightarrow> bool" where
  here: "reaches_leaf b (leaf # rest) leaf"
| inside: "reaches_leaf b (item # rest) leaf"
    if "\<not> is_triple item" and "typeof item = ''object'' \<and> item \<noteq> Null"
      and "group_children item = Inr (combine, children)"
      and "reaches_leaf b (for_in_values children) leaf"
| later: "reaches_leaf b (item # rest) leaf"
    if "processItem b item = Inr (pushed, b1)" and "reaches_leaf b1 rest leaf"

code_pred reaches_leaf .

text \<open>
  The builder on which the loop over \<^verbatim>\<open>sql_joins\<close> starts in \<^verbatim>\<open>build\<close>: after
  \<^verbatim>\<open>buildSelect\<close> or \<^verbatim>\<open>buildInsert\<close> in those modes, the builder itself in the modes
  \<^verbatim>\<open>delete\<close> and \<^verbatim>\<open>update\<close>.
\<close>

definition joins_entry :: "builder \<Rightarrow> error + builder" where
  "joins_entry b =
     (if sql_mode b = Some ''select'' then Inr (snd (buildSelect b))
      else if sql_mode b = Some ''insert'' then
        (case buildInsert b of Inl e \<Rightarrow> Inl e | Inr (q, b1) \<Rightarrow> Inr b1)
      else if sql_mode b = Some ''delete'' \<or> sql_mode b = Some ''update'' then Inr b
      else Inl UnknownQueryType)"
section \<open>The escaper maps character by character\<close>

lemma escape_loop_string:
  "chunk \<le> length pre \<Longrightarrow> \<forall>c \<in> set (drop chunk pre). \<not> special c \<Longrightarrow>
   escape_loop (\<lambda>a b. take (b - a) (drop a (pre @ rest))) rest (length pre) chunk escaped = (chunk', escaped') \<Longrightarrow>
   chunk' \<le> length (pre @ rest) \<and>
   escaped' @ drop chunk' (pre @ rest) = escaped @ drop chunk pre @ escape_chars rest \<and>
   (chunk' = 0 \<longrightarrow> escaped' = escaped \<and> chunk = 0)"
proof (induction rest arbitrary: pre chunk escaped)
  case Nil
  then show ?case by (auto simp: escape_chars_def)
next
  case (Cons c cs)
  show ?case
  proof (cases "special c")
    case True
    with Cons.prems(3)
    have run: "escape_loop (\<lambda>a b. take (b - a) (drop a ((pre @ [c]) @ cs))) cs (length (pre @ [c]))
                 (length (pre @ [c])) (escaped @ drop chunk pre @ escape_map c) = (chunk', escaped')"
      using Cons.prems(1) by simp
    have "chunk' \<le> length ((pre @ [c]) @ cs) \<and>
          escaped' @ drop chunk' ((pre @ [c]) @ cs) =
            (escaped @ drop chunk pre @ escape_map c) @ drop (length (pre @ [c])) (pre @ [c]) @ escape_chars cs \<and>
          (chunk' = 0 \<longrightarrow> escaped' = escaped @ drop chunk pre @ escape_map c \<and> length (pre @ [c]) = 0)"
      by (rule Cons.IH [OF _ _ run]) auto
    with True show ?thesis by (auto simp: escape_chars_def)
  next
    case False
    with Cons.prems(3)
    have run: "escape_loop (\<lambda>a b. take (b - a) (drop a ((pre @ [c]) @ cs))) cs (length (pre @ [c]))
                 chunk escaped = (chunk', escaped')"
      by simp
    have "chunk' \<le> length ((pre @ [c]) @ cs) \<and>
          escaped' @ drop chunk' ((pre @ [c]) @ cs) =
            escaped @ drop chunk (pre @ [c]) @ escape_chars cs \<and>
          (chunk' = 0 \<longrightarrow> escaped' = escaped \<and> chunk = 0)"
      using Cons.prems(1,2) False by (intro Cons.IH [OF _ _ run]) auto
    with False Cons.prems(1) show ?thesis by (auto simp: escape_chars_def)
  qed
qed

lemma sqlEscape_Str: "sqlEscape (Str s) = Str (escape_chars s)"
proof -
  obtain chunk' escaped' where run:
    "escape_loop (\<lambda>a b. take (b - a) (drop a s)) s 0 0 [] = (chunk', escaped')"
    by (cases "escape_loop (\<lambda>a b. take (b - a) (drop a s)) s 0 0 []") auto
  have "chunk' \<le> length ([] @ s) \<and>
        escaped' @ drop chunk' ([] @ s) = [] @ drop 0 [] @ escape_chars s \<and>
        (chunk' = 0 \<longrightarrow> escaped' = [] \<and> (0::nat) = 0)"
    by (rule escape_loop_string [where pre = "[]" and chunk = 0]) (use run in auto)
  then have le: "chunk' \<le> length s" and eq: "escaped' @ drop chunk' s = escape_chars s"
    and z: "chunk' = 0 \<Longrightarrow> escaped' = []"
    by auto
  show ?thesis
  proof (cases "chunk' = 0")
    case True
    with eq z show ?thesis by (simp add: sqlEscape_def run)
  next
    case False
    with le eq show ?thesis by (cases "chunk' < length s") (auto simp: sqlEscape_def run)
  qed
qed

lemma literal_body_escape: "literal_body (escape_chars s @ [CHR 0x27]) = Some s"
proof (induction s)
  case Nil
  show ?case by (simp add: escape_chars_def)
next
  case (Cons c s)
  then have ih: "literal_body (escape_chars s @ [CHR 0x27]) = Some s" .
  have step: "escape_chars (c # s) = (if special c then escape_map c else [c]) @ escape_chars s"
    by (simp add: escape_chars_def)
  show ?case
  proof (cases "special c")
    case True
    then show ?thesis
      unfolding step using ih by (auto simp: special_def escape_map_def unescape_def)
  next
    case False
    then have "c \<noteq> CHR 0x27" "c \<noteq> CHR 0x5C" by (auto simp: special_def)
    with False show ?thesis unfolding step using ih by simp
  qed
qed

text \<open>
  C5.  On every string \<open>s\<close>, \<^verbatim>\<open>sqlEscape\<close> replaces each of the nine characters by its
  two-character escape (\<open>0x1a\<close> by backslash \<open>Z\<close>) and copies every other character;
  the result, put between single quotes and read back as a string literal of the
  dialect, is \<open>s\<close> again.
\<close>

theorem C5_escape_round_trip:
  "sqlEscape (Str s) = Str (concat (map (\<lambda>c. if special c then escape_map c else [c]) s)) \<and>
   escape_map CHR 0x1A = [CHR 0x5C, CHR ''Z''] \<and>
   parse_literal ([CHR 0x27] @ escaped_text (Str s) @ [CHR 0x27]) = Some s"
  using literal_body_escape [of s]
  by (simp add: sqlEscape_Str escaped_text_def parse_literal_def escape_chars_def escape_map_def)

theorem C5_escape_round_trip_witness:
  "sqlEscape (Str [CHR ''O'', CHR 0x27, CHR ''R'', CHR 0x5C, CHR 0x1A, CHR 0x0A]) =
     Str [CHR ''O'', CHR 0x5C, CHR 0x27, CHR ''R'', CHR 0x5C, CHR 0x5C, CHR 0x5C, CHR ''Z'',
          CHR 0x5C, CHR ''n''] \<and>
   parse_literal
     ([CHR 0x27] @ escaped_text (Str [CHR ''O'', CHR 0x27, CHR ''R'', CHR 0x5C, CHR 0x1A, CHR 0x0A])
        @ [CHR 0x27]) =
     Some [CHR ''O'', CHR 0x27, CHR ''R'', CHR 0x5C, CHR 0x1A, CHR 0x0A]"
  using C5_escape_round_trip [of "[CHR ''O'', CHR 0x27, CHR ''R'', CHR 0x5C, CHR 0x1A, CHR 0x0A]"]
  by (simp add: special_def escape_map_def)

section \<open>Values the escaper returns untouched\<close>

lemma show_nat_digits: "set (show_nat n) \<subseteq> set ''0123456789''"
proof (induction n rule: show_nat.induct)
  case (1 n)
  have d: "\<And>k. k < 10 \<Longrightarrow> ''0123456789'' ! k \<in> set ''0123456789''"
    by (rule nth_mem) simp
  show ?case
  proof (cases "n < 10")
    case True
    then show ?thesis using d [of n] by (subst show_nat.simps) simp
  next
    case False
    have "''0123456789'' ! (n mod 10) \<in> set ''0123456789''" by (rule d) simp
    with False "1.IH" show ?thesis by (subst show_nat.simps) simp
  qed
qed

lemma digits_plain: "list_all (\<lambda>c. \<not> special c) ''0123456789''"
  by code_simp

lemma show_nat_plain: "c \<in> set (show_nat n) \<Longrightarrow> \<not> special c"
  using show_nat_digits [of n] digits_plain by (auto simp: list_all_iff)

lemma no_special_scalar:
  assumes "\<not> (\<exists>s. val = Str s)" "\<not> (\<exists>xs. val = Arr xs)"
  shows "\<forall>c \<in> set (to_string val). \<not> special c"
proof (cases val)
  case (Num n)
  then show ?thesis
    by (auto simp: show_int_def special_def [of "CHR ''-''"] dest: show_nat_plain)
next
  case (Bool v)
  then show ?thesis by (simp add: special_def)
qed (use assms in \<open>simp_all add: special_def\<close>)

lemma sqlEscape_scalar:
  assumes "\<not> (\<exists>s. val = Str s)" "\<not> (\<exists>xs. val = Arr xs)"
  shows "escape_loop slc (to_string val) idx chunk escaped = (chunk, escaped) \<and> sqlEscape val = val"
proof -
  have run: "\<And>idx. \<forall>c \<in> set s. \<not> special c \<Longrightarrow> escape_loop slc s idx chunk escaped = (chunk, escaped)" for s
    by (induction s) auto
  from assms have "sqlEscape val = val" by (cases val) (simp_all add: sqlEscape_def)
  with run [OF no_special_scalar [OF assms]] show ?thesis by simp
qed

section \<open>Tokens the identifier patterns leave alone\<close>

lemma word_chars_plain:
  "list_all (\<lambda>c. \<not> special c \<and> c \<noteq> CHR ''.'' \<and> c \<noteq> CHR '' '' \<and> c \<noteq> CHR ''*'' \<and> c \<noteq> CHR ''?'')
     word_chars"
  by code_simp

lemma word_char_plain:
  "word_char c \<Longrightarrow>
   \<not> special c \<and> c \<noteq> CHR ''.'' \<and> c \<noteq> CHR '' '' \<and> c \<noteq> CHR ''*'' \<and> c \<noteq> CHR ''?''"
  using word_chars_plain by (simp only: word_char_def list_all_iff) blast

lemma word_char_not_special: "word_char c \<Longrightarrow> \<not> special c"
  by (simp add: word_char_plain)

lemma word_char_not_dot: "word_char c \<Longrightarrow> c \<noteq> CHR ''.''"
  by (simp add: word_char_plain)

lemma word_char_not_space: "word_char c \<Longrightarrow> c \<noteq> CHR '' ''"
  by (simp add: word_char_plain)

lemma escape_chars_plain: "\<forall>c \<in> set s. \<not> special c \<Longrightarrow> escape_chars s = s"
  by (induction s) (auto simp: escape_chars_def)

lemma escaped_text_plain: "\<forall>c \<in> set s. \<not> special c \<Longrightarrow> escaped_text (Str s) = s"
  by (simp add: escaped_text_def sqlEscape_Str escape_chars_plain)

lemma match_dotted_has_dot: "match_dotted s = Some r \<Longrightarrow> CHR ''.'' \<in> set s"
proof -
  assume "match_dotted s = Some r"
  then obtain t where "dropWhile word_char s = CHR ''.'' # t"
    by (auto simp: match_dotted_def split: if_splits list.splits)
  then have "CHR ''.'' \<in> set (dropWhile word_char s)" by simp
  then show ?thesis by (rule set_dropWhileD)
qed


lemma replace_dotted_no_dot: "CHR ''.'' \<notin> set s \<Longrightarrow> replace_dotted ids s = (s, False)"
proof (induction s)
  case Nil
  show ?case by simp
next
  case (Cons c cs)
  have "match_dotted (c # cs) = None"
  proof (cases "match_dotted (c # cs)")
    case (Some r)
    then have "CHR ''.'' \<in> set (c # cs)" by (rule match_dotted_has_dot)
    with Cons.prems show ?thesis by simp
  qed simp
  with Cons show ?case by simp
qed

lemma match_as_has_space: "match_as s = Some r \<Longrightarrow> CHR '' '' \<in> set s"
proof -
  assume "match_as s = Some r"
  then have "take 3 s = ''as '' \<or> take 3 s = ''AS ''"
    by (auto simp: match_as_def split: if_splits)
  then have "CHR '' '' \<in> set (take 3 s)" by auto
  then show ?thesis by (rule in_set_takeD)
qed

lemma replace_as_no_space: "CHR '' '' \<notin> set s \<Longrightarrow> replace_as s = (s, False)"
proof (induction s)
  case Nil
  show ?case by simp
next
  case (Cons c cs)
  have "match_as (c # cs) = None"
  proof (cases "match_as (c # cs)")
    case (Some r)
    then have "CHR '' '' \<in> set (c # cs)" by (rule match_as_has_space)
    with Cons.prems show ?thesis by simp
  qed simp
  with Cons show ?case by simp
qed

text \<open>A token with no dot, no space and none of the nine characters.\<close>

lemma identifier_plain:
  assumes "CHR ''.'' \<notin> set (to_string val)" "CHR '' '' \<notin> set (to_string val)"
    and "\<forall>c \<in> set (to_string val). \<not> special c"
  shows "identifier b val force_quote =
           (if force_quote then ''`'' @ to_string val @ ''`'' else to_string val)"
  using assms
  by (simp add: identifier_def replace_dotted_no_dot replace_as_no_space escaped_text_plain)

lemma first_named_no_marker: "CHR ''?'' \<notin> set s \<Longrightarrow> first_named s = None"
  by (induction s) auto



lemma split_on_no_sep: "d \<notin> set s \<Longrightarrow> split_on d s = [s]"
  by (induction s) auto

lemma split_on_first: "d \<notin> set t \<Longrightarrow> split_on d (t @ d # r) = t # split_on d r"
  by (induction t) auto

lemma match_dotted_token:
  assumes "t \<noteq> []" "\<forall>c \<in> set t. word_char c" "col \<noteq> []" "\<forall>c \<in> set col. star_word_char c"
  shows "match_dotted (t @ ''.'' @ col) = Some (t @ ''.'' @ col, [])"
proof -
  have nd: "\<not> word_char CHR ''.''" using word_char_not_dot by blast
  have tw: "takeWhile word_char (t @ ''.'' @ col) = t"
    using assms(2) nd by (simp add: takeWhile_append2)
  have dw: "dropWhile word_char (t @ ''.'' @ col) = CHR ''.'' # col"
    using assms(2) nd by (simp add: dropWhile_append2)
  have tc: "takeWhile star_word_char col = col" "dropWhile star_word_char col = []"
    using assms(4) by (simp_all add: takeWhile_eq_all_conv)
  show ?thesis
    unfolding match_dotted_def tw dw using assms(1,3) by (simp add: tc)
qed

lemma replace_dotted_token:
  assumes "t \<noteq> []" "\<forall>c \<in> set t. word_char c" "col \<noteq> []" "\<forall>c \<in> set col. star_word_char c"
  shows "replace_dotted ids (t @ ''.'' @ col) = quote_words ids (t @ ''.'' @ col)"
proof -
  obtain c cs where cs: "t @ ''.'' @ col = c # cs"
    using assms(1) by (cases t) auto
  have "match_dotted (c # cs) = Some (t @ ''.'' @ col, [])"
    using match_dotted_token [OF assms] by (simp only: cs)
  then show ?thesis
    unfolding cs by (simp split: prod.splits)
qed

lemma star_not_word: "\<not> word_char CHR ''*''"
  using word_char_plain by blast

lemma words_of_token:
  assumes "\<forall>c \<in> set t. word_char c" "\<forall>c \<in> set col. star_word_char c"
  shows "split_on CHR ''.'' (t @ ''.'' @ col) = [t, col]"
proof -
  have "CHR ''.'' \<notin> set t" using assms(1) word_char_not_dot by blast
  moreover have "CHR ''.'' \<notin> set col"
    using assms(2) word_char_not_dot by (auto simp: star_word_char_def)
  ultimately show ?thesis by (simp add: split_on_first split_on_no_sep)
qed

lemma quote_words_token:
  assumes "t \<noteq> []" "\<forall>c \<in> set t. word_char c" "\<forall>c \<in> set col. star_word_char c"
  shows "quote_words ids (t @ ''.'' @ col) =
           (if Str t \<notin> set ids then (t @ ''.'' @ col, False)
            else (''`'' @ t @ ''`.'' @ (if col = ''*'' then col else ''`'' @ escaped_text (Str col) @ ''`''),
                  True))"
proof -
  have t: "escaped_text (Str t) = t"
    using assms(2) by (intro escaped_text_plain) (auto dest: word_char_not_special)
  have ns: "t \<noteq> ''*''"
    using assms(1,2) star_not_word by (cases t) auto
  show ?thesis
    unfolding quote_words_def words_of_token [OF assms(2,3)]
    by (simp add: t ns)
qed

lemma punctuation_plain:
  "\<not> special CHR ''.''" "\<not> special CHR ''*''" "\<not> special CHR ''`''" "\<not> special CHR ''?''"
  by (simp_all add: special_def)

lemma identifier_token:
  assumes t: "t \<noteq> []" "\<forall>c \<in> set t. word_char c"
    and col: "col \<noteq> []" "col = ''*'' \<or> (\<forall>c \<in> set col. word_char c)"
  shows "identifier b (Str (t @ ''.'' @ col)) force_quote =
           (if Str t \<in> set (sql_identifiers b)
              then ''`'' @ t @ ''`.'' @ (if col = ''*'' then ''*'' else ''`'' @ col @ ''`'')
            else if force_quote then ''`'' @ t @ ''.'' @ col @ ''`''
            else t @ ''.'' @ col)"
proof -
  have sw: "\<forall>c \<in> set col. star_word_char c"
    using col(2) by (auto simp: star_word_char_def)
  have t_plain: "\<forall>c \<in> set t. \<not> special c" and t_space: "CHR '' '' \<notin> set t"
    using t(2) word_char_plain by blast+
  have col_plain: "\<forall>c \<in> set col. \<not> special c"
  proof (cases "col = ''*''")
    case True
    then show ?thesis by (simp add: punctuation_plain)
  next
    case False
    with col(2) word_char_plain show ?thesis by blast
  qed
  have col_space: "CHR '' '' \<notin> set col"
  proof (cases "col = ''*''")
    case True
    then show ?thesis by simp
  next
    case False
    with col(2) word_char_plain show ?thesis by blast
  qed
  have ecol: "escaped_text (Str col) = col"
    using col_plain by (rule escaped_text_plain)
  have first: "replace_dotted (sql_identifiers b) (t @ ''.'' @ col) =
      (if Str t \<notin> set (sql_identifiers b) then (t @ ''.'' @ col, False)
       else (''`'' @ t @ ''`.'' @ (if col = ''*'' then col else ''`'' @ col @ ''`''), True))"
    by (simp only: replace_dotted_token [OF t col(1) sw] quote_words_token [OF t sw] ecol)
  show ?thesis
  proof (cases "Str t \<in> set (sql_identifiers b)")
    case True
    let ?q = "''`'' @ t @ ''`.'' @ (if col = ''*'' then col else ''`'' @ col @ ''`'')"
    have "CHR '' '' \<notin> set ?q" using t_space col_space by simp
    then have "replace_as ?q = (?q, False)" by (rule replace_as_no_space)
    with True first show ?thesis by (simp add: identifier_def)
  next
    case False
    let ?m = "t @ ''.'' @ col"
    have sp: "CHR '' '' \<notin> set ?m" using t_space col_space by simp
    then have "replace_as ?m = (?m, False)" by (rule replace_as_no_space)
    moreover have "\<forall>c \<in> set ?m. \<not> special c"
      using t_plain col_plain by (auto simp: punctuation_plain)
    then have "escaped_text (Str ?m) = ?m" by (rule escaped_text_plain)
    ultimately show ?thesis using False first sp by (simp add: identifier_def)
  qed
qed

lemma boolean_token: "identifierOrQuote b (Bool v) force_quote =
         (if force_quote then ''`'' @ (if v then ''true'' else ''false'') @ ''`''
          else (if v then ''true'' else ''false''), b) \<and>
       quote (Bool v) force_quote = [CHR 0x27] @ (if v then ''true'' else ''false'') @ [CHR 0x27]"
proof -
  have id: "identifier b (Bool v) force_quote =
      (if force_quote then ''`'' @ to_string (Bool v) @ ''`'' else to_string (Bool v))"
    by (rule identifier_plain) (auto simp: special_def)
  have named: "first_named (to_string (Bool v)) = None"
    by (rule first_named_no_marker) auto
  have r: "identifierOrQuote b (Bool v) force_quote = (identifier b (Bool v) force_quote, b)"
    by (simp add: identifierOrQuote_def named del: to_string.simps)
  have q: "quote (Bool v) force_quote = [CHR 0x27] @ to_string (Bool v) @ [CHR 0x27]"
    by (simp add: quote_def escaped_text_def sqlEscape_def)
  show ?thesis
    by (simp add: r id q)
qed

text \<open>
  C2 (what the code does).  \<^verbatim>\<open>typeof\<close> of a boolean is \<^verbatim>\<open>'boolean'\<close>, which the label
  \<^verbatim>\<open>'bool'\<close> never matches: \<^verbatim>\<open>identifierOrQuote\<close> falls through to \<^verbatim>\<open>identifier\<close> and gives the
  word \<open>true\<close> or \<open>false\<close> (in backticks under \<^verbatim>\<open>force_quote\<close>), and \<^verbatim>\<open>quote\<close> gives the word in
  single quotes.  Neither gives \<open>1\<close> or \<open>0\<close>.
\<close>

theorem C2_boolean_resolution:
  "identifierOrQuote b (Bool v) force_quote =
     (if force_quote then ''`'' @ (if v then ''true'' else ''false'') @ ''`''
      else (if v then ''true'' else ''false''), b) \<and>
   quote (Bool v) force_quote = [CHR 0x27] @ (if v then ''true'' else ''false'') @ [CHR 0x27] \<and>
   fst (identifierOrQuote b (Bool v) force_quote) \<notin> {''0'', ''1''} \<and>
   quote (Bool v) force_quote \<notin> {''0'', ''1''}"
  by (simp add: boolean_token)

text \<open>
  C4 (as amended).  For a token \<open>table.column\<close> whose two segments are non-empty runs of
  \<^verbatim>\<open>[a-zA-Z_0-9]\<close>: when \<open>table\<close> is in \<^verbatim>\<open>sql_identifiers\<close> the result is the two segments
  in backticks, and \<open>table.*\<close> gives the table in backticks followed by \<open>.*\<close>, whatever
  \<^verbatim>\<open>force_quote\<close> is; when \<open>table\<close> is not registered the token comes back unchanged if
  \<^verbatim>\<open>force_quote\<close> is unset, and wrapped whole in one pair of backticks if it is set.
\<close>

theorem C4_identifier_tokens:
  assumes "t \<noteq> []" "\<forall>c \<in> set t. word_char c" "col \<noteq> []" "\<forall>c \<in> set col. word_char c"
  shows "identifier b (Str (t @ ''.'' @ col)) force_quote =
           (if Str t \<in> set (sql_identifiers b) then ''`'' @ t @ ''`.`'' @ col @ ''`''
            else if force_quote then ''`'' @ t @ ''.'' @ col @ ''`''
            else t @ ''.'' @ col) \<and>
         identifier b (Str (t @ ''.*'')) force_quote =
           (if Str t \<in> set (sql_identifiers b) then ''`'' @ t @ ''`.*''
            else if force_quote then ''`'' @ t @ ''.*`''
            else t @ ''.*'')"
proof -
  have "col \<noteq> ''*''" using assms(4) star_not_word by auto
  then show ?thesis
    using identifier_token [of t col b force_quote] identifier_token [of t "''*''" b force_quote] assms
    by simp
qed

theorem C4_identifier_tokens_witness:
  "identifier (constructor\<lparr>sql_identifiers := [Str ''users'', Str ''user'']\<rparr>) (Str ''user.active'') False
     = ''`user`.`active`'' \<and>
   identifier (constructor\<lparr>sql_identifiers := [Str ''users'', Str ''user'']\<rparr>) (Str ''user.*'') True
     = ''`user`.*'' \<and>
   identifier (constructor\<lparr>sql_identifiers := [Str ''users'', Str ''user'']\<rparr>) (Str ''foo.bar'') False
     = ''foo.bar''"
  using C4_identifier_tokens [of "''user''" "''active''"
          "constructor\<lparr>sql_identifiers := [Str ''users'', Str ''user'']\<rparr>" False]
        C4_identifier_tokens [of "''user''" "''active''"
          "constructor\<lparr>sql_identifiers := [Str ''users'', Str ''user'']\<rparr>" True]
        C4_identifier_tokens [of "''foo''" "''bar''"
          "constructor\<lparr>sql_identifiers := [Str ''users'', Str ''user'']\<rparr>" False]
  by (simp add: word_char_def word_chars_def)

text \<open>
  C4 as stated fails: with \<^verbatim>\<open>force_quote\<close> set, a token whose first segment is not
  registered does not come back unchanged.
\<close>

theorem C4_force_quote_counterexample:
  "Str ''foo'' \<notin> set (sql_identifiers (constructor\<lparr>sql_identifiers := [Str ''users'', Str ''user'']\<rparr>)) \<and>
   identifier (constructor\<lparr>sql_identifiers := [Str ''users'', Str ''user'']\<rparr>) (Str ''foo.bar'') True
     = ''`foo.bar`'' \<and>
   ''`foo.bar`'' \<noteq> ''foo.bar''"
  by (simp add: identifier_def match_dotted_def word_char_def word_chars_def star_word_char_def quote_words_def
       match_as_def escaped_text_def sqlEscape_def special_def)

section \<open>Array indices as property keys\<close>

lemma show_nat_nonempty: "show_nat n \<noteq> []"
  by (subst show_nat.simps) simp

lemma digit_inj: "a < 10 \<Longrightarrow> b < 10 \<Longrightarrow> ''0123456789'' ! a = ''0123456789'' ! b \<Longrightarrow> a = b"
proof -
  assume "a < 10" "b < 10" "''0123456789'' ! a = ''0123456789'' ! b"
  moreover have "distinct ''0123456789''" by simp
  ultimately show "a = b" by (simp add: nth_eq_iff_index_eq)
qed

lemma show_nat_inj: "show_nat m = show_nat n \<Longrightarrow> m = n"
proof (induction m arbitrary: n rule: show_nat.induct)
  case (1 m)
  show ?case
  proof (cases "m < 10")
    case small: True
    show ?thesis
    proof (cases "n < 10")
      case True
      with small "1.prems" show ?thesis
        by (simp add: show_nat.simps [of m] show_nat.simps [of n] digit_inj)
    next
      case False
      with small "1.prems" show_nat_nonempty [of "n div 10"] show ?thesis
        by (simp add: show_nat.simps [of m] show_nat.simps [of n])
    qed
  next
    case big: False
    show ?thesis
    proof (cases "n < 10")
      case True
      with big "1.prems" show_nat_nonempty [of "m div 10"] show ?thesis
        by (simp add: show_nat.simps [of m] show_nat.simps [of n])
    next
      case False
      with big "1.prems" have eq: "show_nat (m div 10) = show_nat (n div 10)"
        and d: "''0123456789'' ! (m mod 10) = ''0123456789'' ! (n mod 10)"
        by (simp_all add: show_nat.simps [of m] show_nat.simps [of n])
      from eq have "m div 10 = n div 10" using "1.IH" big by simp
      moreover from d have "m mod 10 = n mod 10" by (intro digit_inj) simp_all
      ultimately show ?thesis by (metis div_mult_mod_eq)
    qed
  qed
qed

lemma fold_assign_other:
  "k \<notin> fst ` set kvs \<Longrightarrow> fold (\<lambda>(i, v) m. m(i \<mapsto> v)) kvs m k = m k"
  by (induction kvs arbitrary: m) auto

lemma params_loop_plain:
  "''length'' \<notin> fst ` set kvs \<Longrightarrow>
   params_loop text_length kvs m = Inr (fold (\<lambda>(i, v) m. m(i \<mapsto> v)) kvs m)"
  by (induction kvs arbitrary: m) auto

lemma index_not_length: "show_nat i \<noteq> ''length''"
  using show_nat_digits [of i] by auto

lemma params_array:
  "params text_length b (Arr xs) =
     Inr (b\<lparr>sql_params :=
              fold (\<lambda>(i, v) m. m(i \<mapsto> v)) (zip (map show_nat [0..<length xs]) xs) (sql_params b)\<rparr>)"
proof -
  have "''length'' \<notin> fst ` set (zip (map show_nat [0..<length xs]) xs)"
    using index_not_length by (force dest: set_zip_leftD)
  then show ?thesis by (simp add: params_def params_loop_plain)
qed

lemma params_array_beyond:
  assumes "params text_length b0 (Arr xs) = Inr b" "length xs \<le> n"
  shows "sql_params b (show_nat n) = sql_params b0 (show_nat n)"
proof -
  have "show_nat n \<notin> fst ` set (zip (map show_nat [0..<length xs]) xs)"
  proof
    assume "show_nat n \<in> fst ` set (zip (map show_nat [0..<length xs]) xs)"
    then have "show_nat n \<in> set (map show_nat [0..<length xs])"
      by (auto dest: set_zip_leftD)
    then obtain i where "i < length xs" "show_nat n = show_nat i" by auto
    with assms(2) show False by (auto dest: show_nat_inj)
  qed
  with assms(1) show ?thesis
    by (auto simp: params_array fold_assign_other)
qed

lemma identifierOrQuote_exhausted:
  assumes "sql_params b (show_nat (sql_param_counter b)) = None"
  shows "identifierOrQuote b (Str ''?'') force_quote = (if force_quote then ''`?`'' else ''?'', b)"
proof -
  have "identifier b (Str ''?'') force_quote =
          (if force_quote then ''`'' @ to_string (Str ''?'') @ ''`'' else to_string (Str ''?''))"
    by (rule identifier_plain) (simp_all add: special_def)
  with assms show ?thesis
    by (simp add: identifierOrQuote_def)
qed

text \<open>
  C6 (as amended).  When the positional parameters are the array \<open>xs\<close> and the cursor
  is at or beyond \<open>length xs\<close>, resolving the token \<open>?\<close> raises nothing and leaves the
  builder, cursor included, as it was; the text is \<open>?\<close> itself when \<^verbatim>\<open>force_quote\<close> is
  unset, and \<open>?\<close> in backticks when it is set.
\<close>

theorem C6_exhausted_placeholder:
  assumes "params text_length constructor (Arr xs) = Inr p"
    and "sql_params b = sql_params p"
    and "length xs \<le> sql_param_counter b"
  shows "identifierOrQuote b (Str ''?'') force_quote = (if force_quote then ''`?`'' else ''?'', b)"
proof -
  have "sql_params p (show_nat (sql_param_counter b)) = sql_params constructor (show_nat (sql_param_counter b))"
    using assms(1,3) by (rule params_array_beyond)
  then have "sql_params b (show_nat (sql_param_counter b)) = None"
    by (simp add: assms(2) constructor_def)
  then show ?thesis by (rule identifierOrQuote_exhausted)
qed

theorem C6_exhausted_placeholder_witness:
  "params (\<lambda>s. None) constructor (Arr [Str ''John'']) =
     Inr (constructor\<lparr>sql_params := [''0'' \<mapsto> Str ''John'']\<rparr>) \<and>
   identifierOrQuote (constructor\<lparr>sql_params := [''0'' \<mapsto> Str ''John''], sql_param_counter := 1\<rparr>)
       (Str ''?'') False =
     (''?'', constructor\<lparr>sql_params := [''0'' \<mapsto> Str ''John''], sql_param_counter := 1\<rparr>)"
proof -
  have p: "params (\<lambda>s. None) constructor (Arr [Str ''John'']) =
      Inr (constructor\<lparr>sql_params := [''0'' \<mapsto> Str ''John'']\<rparr>)"
    by (simp add: params_array constructor_def show_nat.simps)
  show ?thesis
    using p C6_exhausted_placeholder [OF p,
        of "constructor\<lparr>sql_params := [''0'' \<mapsto> Str ''John''], sql_param_counter := 1\<rparr>" False]
    by simp
qed

text \<open>
  C6 as stated fails: under \<^verbatim>\<open>force_quote\<close> the placeholder is not echoed back as it
  was, it is quoted as an identifier.
\<close>

theorem C6_force_quote_counterexample:
  "sql_params constructor (show_nat (sql_param_counter constructor)) = None \<and>
   identifierOrQuote constructor (Str ''?'') True = (''`?`'', constructor) \<and>
   ''`?`'' \<noteq> ''?''"
  using identifierOrQuote_exhausted [of constructor True]
  by (simp add: constructor_def)

section \<open>Leaf conditions\<close>

lemma identifierOrQuote_other:
  "val \<noteq> Str ''?'' \<Longrightarrow> snd (identifierOrQuote b val force_quote) = b"
  by (simp add: identifierOrQuote_def split: option.splits)

lemma identifierOrQuote_index:
  "identifierOrQuote b (Str ''0'') False = (''0'', b)"
  "identifierOrQuote b (Str ''1'') False = (''1'', b)"
proof -
  have "identifier b (Str ''0'') False = ''0''" "identifier b (Str ''1'') False = ''1''"
    by (simp_all add: identifier_plain special_def)
  then show "identifierOrQuote b (Str ''0'') False = (''0'', b)"
    "identifierOrQuote b (Str ''1'') False = (''1'', b)"
    by (simp_all add: identifierOrQuote_def)
qed

lemma resolve_pair_keys:
  "resolve_all b (map Str (for_in_keys (Arr [v0, v1]))) False = ([''0'', ''1''], b)"
  by (simp add: show_nat.simps [of 0] show_nat.simps [of "Suc 0"] upt_rec identifierOrQuote_index)

section \<open>Compilation moves nothing but the cursor\<close>

lemma identifierOrQuote_consumes:
  "sql_params b (show_nat (sql_param_counter b)) = Some p \<Longrightarrow>
   identifierOrQuote b (Str ''?'') force_quote =
     (quote p force_quote, b\<lparr>sql_param_counter := Suc (sql_param_counter b)\<rparr>)"
  by (simp add: identifierOrQuote_def)

lemma identifierOrQuote_state:
  "snd (identifierOrQuote b val force_quote) = b \<or>
   snd (identifierOrQuote b val force_quote) = b\<lparr>sql_param_counter := Suc (sql_param_counter b)\<rparr>"
proof (cases "val = Str ''?''")
  case False
  then show ?thesis using identifierOrQuote_other [of val b force_quote] by (intro disjI1) simp
next
  case q: True
  show ?thesis
  proof (cases "sql_params b (show_nat (sql_param_counter b))")
    case None
    then show ?thesis using identifierOrQuote_exhausted [of b force_quote] by (intro disjI1) (simp add: q)
  next
    case (Some p)
    then show ?thesis using identifierOrQuote_consumes [of b p force_quote] by (intro disjI2) (simp add: q)
  qed
qed

lemma identifierOrQuote_frame:
  "\<exists>n. snd (identifierOrQuote b val force_quote) = b\<lparr>sql_param_counter := n\<rparr>"
proof -
  from identifierOrQuote_state [of b val force_quote]
  consider "snd (identifierOrQuote b val force_quote) = b"
    | "snd (identifierOrQuote b val force_quote) = b\<lparr>sql_param_counter := Suc (sql_param_counter b)\<rparr>"
    by blast
  then show ?thesis
  proof cases
    case 1
    then have "snd (identifierOrQuote b val force_quote) = b\<lparr>sql_param_counter := sql_param_counter b\<rparr>"
      by simp
    then show ?thesis ..
  next
    case 2
    then show ?thesis ..
  qed
qed

lemma identifierOrQuote_frameD:
  "identifierOrQuote b val force_quote = (t, b1) \<Longrightarrow> \<exists>n. b1 = b\<lparr>sql_param_counter := n\<rparr>"
  using identifierOrQuote_frame [of b val force_quote] by simp

lemma resolve_all_frame:
  "resolve_all b vs force_quote = (ts, b1) \<Longrightarrow> \<exists>n. b1 = b\<lparr>sql_param_counter := n\<rparr>"
proof (induction vs arbitrary: b ts b1)
  case Nil
  then have "b1 = b\<lparr>sql_param_counter := sql_param_counter b\<rparr>" by simp
  then show ?case ..
next
  case (Cons v vs)
  obtain t b' where h: "identifierOrQuote b v force_quote = (t, b')"
    by (cases "identifierOrQuote b v force_quote")
  obtain ts' b'' where r: "resolve_all b' vs force_quote = (ts', b'')"
    by (cases "resolve_all b' vs force_quote")
  from Cons.prems h r have "b1 = b''" by simp
  moreover from identifierOrQuote_frameD [OF h] obtain n where "b' = b\<lparr>sql_param_counter := n\<rparr>" ..
  moreover from Cons.IH [OF r] obtain m where "b'' = b'\<lparr>sql_param_counter := m\<rparr>" ..
  ultimately have "b1 = b\<lparr>sql_param_counter := m\<rparr>" by simp
  then show ?case ..
qed

lemma resolve_all_frame':
  "\<exists>n. snd (resolve_all b vs force_quote) = b\<lparr>sql_param_counter := n\<rparr>"
  using resolve_all_frame [of b vs force_quote] by (cases "resolve_all b vs force_quote") simp

lemma frame_trans:
  assumes "\<exists>n. b1 = b\<lparr>sql_param_counter := n\<rparr>" "\<exists>n. b2 = b1\<lparr>sql_param_counter := n\<rparr>"
  shows "\<exists>n. b2 = b\<lparr>sql_param_counter := n\<rparr>"
proof -
  from assms obtain n m where "b1 = b\<lparr>sql_param_counter := n\<rparr>" "b2 = b1\<lparr>sql_param_counter := m\<rparr>"
    by blast
  then have "b2 = b\<lparr>sql_param_counter := m\<rparr>" by simp
  then show ?thesis ..
qed

lemma frame_refl: "\<exists>n. b = b\<lparr>sql_param_counter := n\<rparr>"
proof
  show "b = b\<lparr>sql_param_counter := sql_param_counter b\<rparr>" by simp
qed

lemma comparison_frame:
  "\<exists>n. snd (comparison b column op val) = b\<lparr>sql_param_counter := n\<rparr>"
proof -
  have "snd (comparison b column op val) =
      snd (identifierOrQuote (snd (identifierOrQuote b column False)) val False)"
    by (simp add: comparison_def case_prod_beta)
  then show ?thesis
    using frame_trans [OF identifierOrQuote_frame identifierOrQuote_frame] by simp
qed

lemma list_then_column_frame:
  "\<exists>n. snd (identifierOrQuote (snd (resolve_all b vs fq)) column False) = b\<lparr>sql_param_counter := n\<rparr>"
  by (rule frame_trans [OF resolve_all_frame' identifierOrQuote_frame])

lemma processCondition_frame3:
  "case processCondition b [c0, op, c2] of
     Inl e \<Rightarrow> True
   | Inr (f, b1) \<Rightarrow> \<exists>n. b1 = b\<lparr>sql_param_counter := n\<rparr>"
  unfolding processCondition_def Let_def
  apply (simp only: case_prod_beta)
  apply (simp only: if_split sum.case prod.case snd_conv comparison_frame list_then_column_frame
      identifierOrQuote_frame frame_refl simp_thms split: if_split)
  done

lemma processCondition_frame:
  "case processCondition b condition of
     Inl e \<Rightarrow> True
   | Inr (f, b1) \<Rightarrow> \<exists>n. b1 = b\<lparr>sql_param_counter := n\<rparr>"
proof (cases "length condition = 3")
  case True
  then obtain c0 op c2 where "condition = [c0, op, c2]"
    by (auto simp: length_Suc_conv numeral_3_eq_3)
  then show ?thesis using processCondition_frame3 [of b c0 op c2] by simp
next
  case False
  then show ?thesis by (simp add: processCondition_def frame_refl)
qed

lemma compile_frame:
  "case processConditions b conditions of
     Inl e \<Rightarrow> True | Inr (fs, b1) \<Rightarrow> \<exists>n. b1 = b\<lparr>sql_param_counter := n\<rparr>"
  "case processItems b items of
     Inl e \<Rightarrow> True | Inr (fs, b1) \<Rightarrow> \<exists>n. b1 = b\<lparr>sql_param_counter := n\<rparr>"
  "case processItem b item of
     Inl e \<Rightarrow> True | Inr (fs, b1) \<Rightarrow> \<exists>n. b1 = b\<lparr>sql_param_counter := n\<rparr>"
proof (induction b conditions and b items and b item
       rule: processConditions_processItems_processItem.induct)
  case (1 b conditions)
  then show ?case by simp
next
  case (2 b)
  show ?case by (simp add: frame_refl)
next
  case (3 b item rest)
  show ?case
  proof (cases "processItem b item")
    case (Inl e)
    then show ?thesis by simp
  next
    case (Inr r)
    obtain pushed b1 where r: "r = (pushed, b1)" by (cases r)
    with Inr "3.IH"(1) have f1: "\<exists>n. b1 = b\<lparr>sql_param_counter := n\<rparr>" by simp
    show ?thesis
    proof (cases "processItems b1 rest")
      case Inl
      with Inr r show ?thesis by simp
    next
      case (Inr r2)
      obtain list b2 where r2: "r2 = (list, b2)" by (cases r2)
      from "3.IH"(2) [OF \<open>processItem b item = Inr r\<close> r [symmetric]] Inr r2
      have "\<exists>n. b2 = b1\<lparr>sql_param_counter := n\<rparr>" by simp
      with f1 have "\<exists>n. b2 = b\<lparr>sql_param_counter := n\<rparr>" by (rule frame_trans)
      with \<open>processItem b item = Inr r\<close> r Inr r2 show ?thesis by simp
    qed
  qed
next
  case (4 b item)
  show ?case
  proof (cases "is_triple item")
    case True
    then show ?thesis
      using processCondition_frame [of b "entries item"]
      by (auto simp: processItem.simps split: sum.splits)
  next
    case nt: False
    show ?thesis
    proof (cases "typeof item = ''object'' \<and> item \<noteq> Null")
      case False
      with nt show ?thesis by (auto simp: processItem.simps frame_refl)
    next
      case obj: True
      show ?thesis
      proof (cases "group_children item")
        case (Inl e)
        with nt obj show ?thesis by (simp add: processItem.simps)
      next
        case (Inr g)
        obtain combine children where g: "g = (combine, children)" by (cases g)
        from "4.IH" [OF nt obj Inr g [symmetric]]
        have "case processConditions b children of
                Inl e \<Rightarrow> True | Inr (fs, b1) \<Rightarrow> \<exists>n. b1 = b\<lparr>sql_param_counter := n\<rparr>" .
        with nt obj Inr g show ?thesis
          by (auto simp: processItem.simps split: sum.splits)
      qed
    qed
  qed
qed

section \<open>The statement builders move nothing but the cursor\<close>

lemma processColumns_loop_frame:
  "\<exists>n. snd (processColumns_loop b cs) = b\<lparr>sql_param_counter := n\<rparr>"
proof (induction cs arbitrary: b)
  case Nil
  show ?case by (simp add: frame_refl)
next
  case (Cons c cs)
  show ?case
  proof (cases "typeof c = ''object''")
    case True
    then show ?thesis using Cons [of b] by (simp add: case_prod_beta)
  next
    case False
    have "snd (processColumns_loop b (c # cs)) =
        snd (processColumns_loop (snd (identifierOrQuote b c True)) cs)"
      using False by (simp add: case_prod_beta)
    then show ?thesis
      using frame_trans [OF identifierOrQuote_frame Cons] by simp
  qed
qed

lemma processValues_loop_frame:
  "\<exists>n. snd (processValues_loop b kvs list) = b\<lparr>sql_param_counter := n\<rparr>"
proof (induction kvs arbitrary: b list)
  case Nil
  show ?case by (simp add: frame_refl)
next
  case (Cons kv kvs)
  obtain i v where kv: "kv = (i, v)" by (cases kv)
  have "snd (processValues_loop b (kv # kvs) list) =
      snd (processValues_loop (snd (identifierOrQuote b v False)) kvs
             (assign (identifier b (Str i) True) (fst (identifierOrQuote b v False)) list))"
    by (simp add: kv case_prod_beta)
  then show ?case
    using frame_trans [OF identifierOrQuote_frame Cons] by simp
qed

lemma processValues_frame:
  "\<exists>n. snd (processValues b columns) = b\<lparr>sql_param_counter := n\<rparr>"
  by (simp add: processValues_def case_prod_beta frame_refl processValues_loop_frame)

lemma buildSelect_frame: "\<exists>n. snd (buildSelect b) = b\<lparr>sql_param_counter := n\<rparr>"
  by (simp add: buildSelect_def processColumns_def case_prod_beta processColumns_loop_frame)

lemma buildUpdate_frame: "\<exists>n. snd (buildUpdate b js) = b\<lparr>sql_param_counter := n\<rparr>"
  by (simp add: buildUpdate_def Let_def case_prod_beta processValues_frame)

lemma buildInsert_frame:
  assumes "buildInsert b = Inr (q, b1)"
  shows "\<exists>n. b1 = b\<lparr>sql_param_counter := n\<rparr>"
proof -
  from assms have "b1 = snd (processValues b (get_prop (sql_insert b) ''columns''))"
    by (auto simp: buildInsert_def Let_def then_do_def case_prod_beta split: sum.splits)
  then show ?thesis by (simp only: processValues_frame)
qed

lemma buildJoin_frame:
  assumes "buildJoin b j = Inr (q, b1)"
  shows "\<exists>n. b1 = b\<lparr>sql_param_counter := n\<rparr>"
proof -
  from assms obtain conditions where "processConditions b (get_prop j ''conditions'') = Inr (conditions, b1)"
    by (auto simp: buildJoin_def then_do_def case_prod_beta split: sum.splits)
  with compile_frame(1) [of b "get_prop j ''conditions''"] show ?thesis by simp
qed

lemma build_joins_frame:
  "build_joins b js = Inr (q, b1) \<Longrightarrow> \<exists>n. b1 = b\<lparr>sql_param_counter := n\<rparr>"
proof (induction js arbitrary: b q b1)
  case Nil
  then show ?case by (simp add: frame_refl)
next
  case (Cons j js)
  from Cons.prems obtain t b' ts where j: "buildJoin b j = Inr (t, b')"
    and r: "build_joins b' js = Inr (ts, b1)"
    by (auto simp: then_do_def split: sum.splits)
  from frame_trans [OF buildJoin_frame [OF j] Cons.IH [OF r]] show ?case .
qed

lemma build_statement_frame:
  assumes "build_statement b = Inr (q, b1)"
  shows "\<exists>n. b1 = b\<lparr>sql_param_counter := n\<rparr>"
proof -
  consider (sel) "sql_mode b = Some ''select''"
    | (ins) "sql_mode b \<noteq> Some ''select''" "sql_mode b = Some ''insert''"
    | (del) "sql_mode b \<noteq> Some ''select''" "sql_mode b \<noteq> Some ''insert''" "sql_mode b = Some ''delete''"
    | (upd) "sql_mode b \<noteq> Some ''select''" "sql_mode b \<noteq> Some ''insert''"
            "sql_mode b \<noteq> Some ''delete''" "sql_mode b = Some ''update''"
    | (none) "sql_mode b \<noteq> Some ''select''" "sql_mode b \<noteq> Some ''insert''"
            "sql_mode b \<noteq> Some ''delete''" "sql_mode b \<noteq> Some ''update''"
    by blast
  then show ?thesis
  proof cases
    case sel
    with assms obtain js where
      "build_joins (snd (buildSelect b)) (sql_joins (snd (buildSelect b))) = Inr (js, b1)"
      by (auto simp: build_statement_def then_do_def case_prod_beta split: sum.splits)
    from frame_trans [OF buildSelect_frame build_joins_frame [OF this]] show ?thesis .
  next
    case ins
    with assms obtain q0 b0 js where "buildInsert b = Inr (q0, b0)"
      "build_joins b0 (sql_joins b0) = Inr (js, b1)"
      by (auto simp: build_statement_def then_do_def case_prod_beta split: sum.splits)
    from frame_trans [OF buildInsert_frame [OF this(1)] build_joins_frame [OF this(2)]]
    show ?thesis .
  next
    case del
    with assms obtain js where "build_joins b (sql_joins b) = Inr (js, b1)"
      by (auto simp: build_statement_def then_do_def case_prod_beta split: sum.splits)
    then show ?thesis by (rule build_joins_frame)
  next
    case upd
    with assms obtain js b0 where j: "build_joins b (sql_joins b) = Inr (js, b0)"
      and u: "b1 = snd (buildUpdate b0 js)"
      by (auto simp: build_statement_def then_do_def case_prod_beta split: sum.splits)
    have "\<exists>n. b1 = b0\<lparr>sql_param_counter := n\<rparr>" unfolding u by (rule buildUpdate_frame)
    from frame_trans [OF build_joins_frame [OF j] this] show ?thesis .
  next
    case none
    with assms show ?thesis by (simp add: build_statement_def)
  qed
qed

section \<open>The documented scenario\<close>

lemma identifierOrQuote_identifier:
  assumes "CHR ''?'' \<notin> set (to_string val)" "typeof val \<noteq> ''number''" "val \<noteq> Null"
  shows "identifierOrQuote b val force_quote = (identifier b val force_quote, b)"
proof -
  have "first_named (to_string val) = None"
    using assms(1) by (rule first_named_no_marker)
  moreover have "val \<noteq> Str ''?''" using assms(1) by auto
  moreover have "typeof val \<noteq> ''bool''" by (cases val) simp_all
  ultimately show ?thesis using assms(2,3) by (simp add: identifierOrQuote_def)
qed

lemma select_users: "select constructor users_payload = Inr users_builder"
  by (simp add: select_def then_do_def require_def has_prop_def get_prop_def table_def constructor_def
      identifier_plain special_def users_payload_def users_builder_def)

lemma params_pair:
  "params text_length b (Arr [p0, p1]) = Inr (b\<lparr>sql_params := (sql_params b)(''0'' \<mapsto> p0, ''1'' \<mapsto> p1)\<rparr>)"
  by (simp add: params_array show_nat.simps [of 0] show_nat.simps [of "Suc 0"] upt_rec)

lemma user_column:
  assumes "Str ''user'' \<in> set (sql_identifiers b)" "col \<noteq> []" "\<forall>c \<in> set col. word_char c"
  shows "identifierOrQuote b (Str (''user.'' @ col)) False = (''`user`.`'' @ col @ ''`'', b)"
proof -
  have w: "\<forall>c \<in> set ''user''. word_char c" by (simp add: word_char_def word_chars_def)
  have "col \<noteq> ''*''" using assms(3) star_not_word by auto
  then have "identifier b (Str (''user'' @ ''.'' @ col)) False = ''`user`.`'' @ col @ ''`''"
    using identifier_token [of "''user''" col b False] assms w by simp
  moreover have "CHR ''?'' \<notin> set (''user.'' @ col)"
    using assms(3) word_char_plain by auto
  ultimately show ?thesis
    using identifierOrQuote_identifier [of "Str (''user.'' @ col)" b False] by simp
qed

lemma users_registered: "Str ''user'' \<in> set (sql_identifiers (users_builder\<lparr>sql_params := ps, sql_param_counter := n\<rparr>))"
  by (simp add: users_builder_def)

lemma processItems_append:
  "processItems b (xs @ ys) =
     (case processItems b xs of
        Inl e \<Rightarrow> Inl e
      | Inr (l1, b1) \<Rightarrow>
          (case processItems b1 ys of
             Inl e \<Rightarrow> Inl e
           | Inr (l2, b2) \<Rightarrow> Inr (l1 @ l2, b2)))"
  by (induction xs arbitrary: b) (auto split: sum.splits)

lemma plain_name:
  "identifierOrQuote b (Str ''a'') False = (''a'', b)"
proof -
  have "identifier b (Str ''a'') False = ''a''"
    by (simp add: identifier_plain special_def)
  then show ?thesis
    using identifierOrQuote_identifier [of "Str ''a''" b False] by simp
qed

section \<open>Properties of leaf conditions\<close>

text \<open>
  C1 (what the code does).  On the builder of the scenario, with the positional
  parameters \<open>John\<close> and \<open>Doe\<close>, the condition list compiles to two fragments; the first
  is \<open>`user`.`active` = true\<close>, not \<open>`user`.`active` = 1\<close>.
\<close>

theorem C1_scenario_renders_true:
  "select constructor users_payload = Inr users_builder \<and>
   params text_length users_builder (Arr [Str ''John'', Str ''Doe'']) =
     Inr (users_builder\<lparr>sql_params := [''0'' \<mapsto> Str ''John'', ''1'' \<mapsto> Str ''Doe'']\<rparr>) \<and>
   processConditions
     (users_builder\<lparr>sql_params := [''0'' \<mapsto> Str ''John'', ''1'' \<mapsto> Str ''Doe'']\<rparr>)
     (Arr [Arr [Str ''user.active'', Str ''='', Bool True],
           Obj [(''or'', Arr [Arr [Str ''user.first_name'', Str ''='', Str ''?''],
                              Arr [Str ''user.last_name'', Str ''='', Str ''?'']])]]) =
     Inr ([Some ''`user`.`active` = true'',
           Some (''(`user`.`first_name` = '' @ [CHR 0x27] @ ''John'' @ [CHR 0x27] @
                 '' OR `user`.`last_name` = '' @ [CHR 0x27] @ ''Doe'' @ [CHR 0x27] @ '')'')],
          users_builder\<lparr>sql_params := [''0'' \<mapsto> Str ''John'', ''1'' \<mapsto> Str ''Doe''],
                         sql_param_counter := 2\<rparr>) \<and>
   join_frags '' AND ''
     [Some ''`user`.`active` = true'',
      Some (''(`user`.`first_name` = '' @ [CHR 0x27] @ ''John'' @ [CHR 0x27] @
            '' OR `user`.`last_name` = '' @ [CHR 0x27] @ ''Doe'' @ [CHR 0x27] @ '')'')] =
     ''`user`.`active` = true AND (`user`.`first_name` = '' @ [CHR 0x27] @ ''John'' @ [CHR 0x27] @
     '' OR `user`.`last_name` = '' @ [CHR 0x27] @ ''Doe'' @ [CHR 0x27] @ '')''"
proof -
  let ?ps = "[''0'' \<mapsto> Str ''John'', ''1'' \<mapsto> Str ''Doe'']"
  let ?b = "\<lambda>n. users_builder\<lparr>sql_params := ?ps, sql_param_counter := n\<rparr>"
  have w: "\<forall>c \<in> set ''active''. word_char c" "\<forall>c \<in> set ''first_name''. word_char c"
    "\<forall>c \<in> set ''last_name''. word_char c"
    by (simp_all add: word_char_def word_chars_def)
  have col: "\<And>n. identifierOrQuote (?b n) (Str ''user.active'') False = (''`user`.`active`'', ?b n)"
      "\<And>n. identifierOrQuote (?b n) (Str ''user.first_name'') False = (''`user`.`first_name`'', ?b n)"
      "\<And>n. identifierOrQuote (?b n) (Str ''user.last_name'') False = (''`user`.`last_name`'', ?b n)"
    using user_column [OF users_registered _ w(1)] user_column [OF users_registered _ w(2)]
      user_column [OF users_registered _ w(3)]
    by simp_all
  have tr: "\<And>n. identifierOrQuote (?b n) (Bool True) False = (''true'', ?b n)"
    using boolean_token by simp
  have p0: "identifierOrQuote (?b 0) (Str ''?'') False = ([CHR 0x27] @ ''John'' @ [CHR 0x27], ?b (Suc 0))"
    by (subst identifierOrQuote_consumes [where p = "Str ''John''"])
       (simp_all add: show_nat.simps [of 0] quote_def escaped_text_def sqlEscape_Str
          escape_chars_def special_def)
  have p1: "identifierOrQuote (?b (Suc 0)) (Str ''?'') False =
      ([CHR 0x27] @ ''Doe'' @ [CHR 0x27], ?b (Suc (Suc 0)))"
    by (subst identifierOrQuote_consumes [where p = "Str ''Doe''"])
       (simp_all add: show_nat.simps [of "Suc 0"] quote_def escaped_text_def sqlEscape_Str
          escape_chars_def special_def)
  have b0: "users_builder\<lparr>sql_params := ?ps\<rparr> = ?b 0"
    by (simp add: users_builder_def constructor_def)
  have leaf1: "processItem (?b 0) (Arr [Str ''user.active'', Str ''='', Bool True]) =
      Inr ([Some ''`user`.`active` = true''], ?b 0)"
    by (simp add: processItem.simps processCondition_def comparison_def col tr)
  have leaf2: "processItem (?b 0) (Arr [Str ''user.first_name'', Str ''='', Str ''?'']) =
      Inr ([Some (''`user`.`first_name` = '' @ [CHR 0x27] @ ''John'' @ [CHR 0x27])], ?b (Suc 0))"
    by (simp add: processItem.simps processCondition_def comparison_def col p0)
  have leaf3: "processItem (?b (Suc 0)) (Arr [Str ''user.last_name'', Str ''='', Str ''?'']) =
      Inr ([Some (''`user`.`last_name` = '' @ [CHR 0x27] @ ''Doe'' @ [CHR 0x27])], ?b (Suc (Suc 0)))"
    by (simp add: processItem.simps processCondition_def comparison_def col p1)
  have grp: "group_children (Obj [(''or'', Arr [Arr [Str ''user.first_name'', Str ''='', Str ''?''],
                              Arr [Str ''user.last_name'', Str ''='', Str ''?'']])]) =
      Inr (''OR'', Arr [Arr [Str ''user.first_name'', Str ''='', Str ''?''],
                        Arr [Str ''user.last_name'', Str ''='', Str ''?'']])"
    by (simp add: group_children_def normalise_keys_def)
  have item2: "processItem (?b 0)
       (Obj [(''or'', Arr [Arr [Str ''user.first_name'', Str ''='', Str ''?''],
                           Arr [Str ''user.last_name'', Str ''='', Str ''?'']])]) =
      Inr ([Some (''(`user`.`first_name` = '' @ [CHR 0x27] @ ''John'' @ [CHR 0x27] @
               '' OR `user`.`last_name` = '' @ [CHR 0x27] @ ''Doe'' @ [CHR 0x27] @ '')'')],
           ?b (Suc (Suc 0)))"
    by (subst processItem.simps) (simp add: grp leaf2 leaf3 join_frags_def)
  have compiled: "processConditions (users_builder\<lparr>sql_params := ?ps\<rparr>)
     (Arr [Arr [Str ''user.active'', Str ''='', Bool True],
           Obj [(''or'', Arr [Arr [Str ''user.first_name'', Str ''='', Str ''?''],
                              Arr [Str ''user.last_name'', Str ''='', Str ''?'']])]]) =
     Inr ([Some ''`user`.`active` = true'',
           Some (''(`user`.`first_name` = '' @ [CHR 0x27] @ ''John'' @ [CHR 0x27] @
                 '' OR `user`.`last_name` = '' @ [CHR 0x27] @ ''Doe'' @ [CHR 0x27] @ '')'')],
          ?b 2)"
    by (subst b0) (simp add: leaf1 item2 numeral_2_eq_2)
  have supplied: "params text_length users_builder (Arr [Str ''John'', Str ''Doe'']) =
      Inr (users_builder\<lparr>sql_params := ?ps\<rparr>)"
    by (simp add: params_pair) (simp add: users_builder_def constructor_def)
  show ?thesis
    by (simp only: select_users supplied compiled simp_thms) (simp add: join_frags_def)
qed

text \<open>
  C3 (what the code does).  The loop of \<^verbatim>\<open>between\<close> resolves the enumerated keys, so a
  2-entry array always renders \<open>BETWEEN 0 AND 1\<close>: the entries are never read, no
  placeholder among them is consumed, and nothing is quoted.
\<close>

theorem C3_between_renders_indices:
  "processCondition b [column, Str ''between'', Arr [v0, v1]] =
     Inr (Some (fst (identifierOrQuote b column False) @ '' BETWEEN 0 AND 1''),
          snd (identifierOrQuote b column False)) \<and>
   processCondition (users_builder\<lparr>sql_params := [''0'' \<mapsto> Num 18, ''1'' \<mapsto> Num 65]\<rparr>)
       [Str ''user.age'', Str ''between'', Arr [Str ''?'', Str ''?'']] =
     Inr (Some ''`user`.`age` BETWEEN 0 AND 1'',
          users_builder\<lparr>sql_params := [''0'' \<mapsto> Num 18, ''1'' \<mapsto> Num 65]\<rparr>)"
proof -
  have general: "\<And>b column v0 v1. processCondition b [column, Str ''between'', Arr [v0, v1]] =
     Inr (Some (fst (identifierOrQuote b column False) @ '' BETWEEN 0 AND 1''),
          snd (identifierOrQuote b column False))"
    by (simp add: processCondition_def resolve_pair_keys split: prod.splits
          del: for_in_keys.simps resolve_all.simps)
  let ?b = "users_builder\<lparr>sql_params := [''0'' \<mapsto> Num 18, ''1'' \<mapsto> Num 65]\<rparr>"
  have "Str ''user'' \<in> set (sql_identifiers ?b)" by (simp add: users_builder_def)
  moreover have "\<forall>c \<in> set ''age''. word_char c" by (simp add: word_char_def word_chars_def)
  ultimately have "identifierOrQuote ?b (Str (''user.'' @ ''age'')) False = (''`user`.`'' @ ''age'' @ ''`'', ?b)"
    by (intro user_column) simp_all
  then show ?thesis by (simp add: general)
qed

text \<open>
  C7 (as amended).  For a leaf with operator \<open>between\<close>, \<open>in\<close> or \<open>not in\<close> whose value
  is not of type \<^verbatim>\<open>'object'\<close> (a string, a number, a boolean or \<^verbatim>\<open>undefined\<close>), compiling
  raises nothing, leaves the builder as it was and yields \<^verbatim>\<open>null\<close>, which the join of the
  clause prints as the empty string between its separators.  When the value is \<^verbatim>\<open>null\<close>
  the loop runs zero times and the fragment is the column followed by \<open>IN ()\<close>,
  \<open>NOT IN ()\<close> or \<open>BETWEEN\<close> and a space.
\<close>

theorem C7_non_object_value:
  assumes "op \<in> {''between'', ''in'', ''not in''}" "typeof val \<noteq> ''object''"
  shows "processCondition b [column, Str op, val] = Inr (None, b) \<and>
         processItem b (Arr [column, Str op, val]) = Inr ([None], b) \<and>
         join_frags sep [None] = [] \<and>
         join_frags sep [Some l, None, Some r] = l @ sep @ sep @ r \<and>
         processCondition b [column, Str ''in'', Null] =
           Inr (Some (fst (identifierOrQuote b column False) @ '' IN ()''),
                snd (identifierOrQuote b column False)) \<and>
         processCondition b [column, Str ''not in'', Null] =
           Inr (Some (fst (identifierOrQuote b column False) @ '' NOT IN ()''),
                snd (identifierOrQuote b column False)) \<and>
         processCondition b [column, Str ''between'', Null] =
           Inr (Some (fst (identifierOrQuote b column False) @ '' BETWEEN ''),
                snd (identifierOrQuote b column False))"
proof -
  have leaf: "processCondition b [column, Str op, val] = Inr (None, b)"
    using assms by (auto simp: processCondition_def)
  then have item: "processItem b (Arr [column, Str op, val]) = Inr ([None], b)"
    by (simp add: processItem.simps)
  have null: "processCondition b [column, Str ''in'', Null] =
           Inr (Some (fst (identifierOrQuote b column False) @ '' IN ()''),
                snd (identifierOrQuote b column False))"
      "processCondition b [column, Str ''not in'', Null] =
           Inr (Some (fst (identifierOrQuote b column False) @ '' NOT IN ()''),
                snd (identifierOrQuote b column False))"
      "processCondition b [column, Str ''between'', Null] =
           Inr (Some (fst (identifierOrQuote b column False) @ '' BETWEEN ''),
                snd (identifierOrQuote b column False))"
    by (simp_all add: processCondition_def split: prod.splits)
  show ?thesis
    by (simp only: leaf item null simp_thms) (simp add: join_frags_def)
qed

theorem C7_non_object_value_witness:
  "processCondition users_builder [Str ''user.age'', Str ''in'', Num 5] = Inr (None, users_builder) \<and>
   processItem users_builder (Arr [Str ''user.age'', Str ''in'', Num 5]) = Inr ([None], users_builder) \<and>
   join_frags (''.'' @ ''AND '') [Some ''x = 1'', None, Some ''RAW()''] = ''x = 1.AND .AND RAW()''"
  using C7_non_object_value [of "''in''" "Num 5" users_builder "Str ''user.age''"
          "''.'' @ ''AND ''" "''x = 1''" "''RAW()''"]
  by simp

text \<open>
  C7 as stated fails: \<^verbatim>\<open>null\<close> is not a sequence, yet its type is \<^verbatim>\<open>'object'\<close>, so the
  leaf is not dropped; it contributes the fragment \<open>a IN ()\<close>.
\<close>

theorem C7_null_value_counterexample:
  "processConditions constructor (Arr [Arr [Str ''a'', Str ''in'', Null]]) =
     Inr ([Some ''a IN ()''], constructor) \<and>
   join_frags and_line [Some ''a IN ()''] = ''a IN ()''"
  by (simp add: processItem.simps processCondition_def plain_name join_frags_def)

text \<open>
  C9.  For \<open>contains\<close>, \<open>begins\<close> and \<open>ends\<close> the fragment is the resolved column, \<open>LIKE\<close>,
  and the escaped value between single quotes with the \<open>%\<close> markers of the operator.
  The value goes to the escaper only: a string value is escaped character by
  character, the value \<open>?\<close> is written as it is, and the builder after the leaf is the
  builder after resolving the column, which is the builder before when the column is
  not the token \<open>?\<close> itself.
\<close>

theorem C9_like_value_is_only_escaped:
  "processCondition b [column, Str ''contains'', val] =
     Inr (Some (fst (identifierOrQuote b column False) @ '' LIKE '' @ [CHR 0x27] @ ''%'' @
                escaped_text val @ ''%'' @ [CHR 0x27]),
          snd (identifierOrQuote b column False)) \<and>
   processCondition b [column, Str ''begins'', val] =
     Inr (Some (fst (identifierOrQuote b column False) @ '' LIKE '' @ [CHR 0x27] @
                escaped_text val @ ''%'' @ [CHR 0x27]),
          snd (identifierOrQuote b column False)) \<and>
   processCondition b [column, Str ''ends'', val] =
     Inr (Some (fst (identifierOrQuote b column False) @ '' LIKE '' @ [CHR 0x27] @ ''%'' @
                escaped_text val @ [CHR 0x27]),
          snd (identifierOrQuote b column False)) \<and>
   escaped_text (Str s) = concat (map (\<lambda>c. if special c then escape_map c else [c]) s) \<and>
   escaped_text (Str ''?'') = ''?'' \<and>
   (column \<noteq> Str ''?'' \<longrightarrow> snd (identifierOrQuote b column False) = b)"
  by (simp add: processCondition_def identifierOrQuote_other escaped_text_def sqlEscape_Str
        escape_chars_def special_def split: prod.splits)

theorem C9_like_value_is_only_escaped_witness:
  "processCondition (users_builder\<lparr>sql_params := [''0'' \<mapsto> Str ''John'']\<rparr>)
       [Str ''user.name'', Str ''contains'', Str ''?''] =
     Inr (Some (''`user`.`name` LIKE '' @ [CHR 0x27] @ ''%?%'' @ [CHR 0x27]),
          users_builder\<lparr>sql_params := [''0'' \<mapsto> Str ''John'']\<rparr>) \<and>
   sql_param_counter (users_builder\<lparr>sql_params := [''0'' \<mapsto> Str ''John'']\<rparr>) = 0"
proof -
  let ?b = "users_builder\<lparr>sql_params := [''0'' \<mapsto> Str ''John'']\<rparr>"
  have "Str ''user'' \<in> set (sql_identifiers ?b)" by (simp add: users_builder_def)
  moreover have "\<forall>c \<in> set ''name''. word_char c" by (simp add: word_char_def word_chars_def)
  ultimately have "identifierOrQuote ?b (Str (''user.'' @ ''name'')) False =
      (''`user`.`'' @ ''name'' @ ''`'', ?b)"
    by (intro user_column) simp_all
  then have "processCondition ?b [Str ''user.name'', Str ''contains'', Str ''?''] =
     Inr (Some (''`user`.`name` LIKE '' @ [CHR 0x27] @ ''%?%'' @ [CHR 0x27]), ?b)"
    using C9_like_value_is_only_escaped [of ?b "Str ''user.name''" "Str ''?''" "''?''"]
    by (simp add: special_def)
  moreover have "sql_param_counter ?b = 0"
    by (simp add: users_builder_def constructor_def)
  ultimately show ?thesis by (simp only: simp_thms)
qed

section \<open>Errors reach the caller of build\<close>

lemma unknown_leaf:
  assumes "op \<notin> Str ` {''='', ''<='', ''>='', ''<'', ''>'', ''!='', ''<>'', ''is'', ''is not'',
      ''between'', ''in'', ''not in'', ''contains'', ''begins'', ''ends'', ''in set''}"
  shows "processCondition b [column, op, val] = Inl UnknownClause"
  using assms by (simp add: processCondition_def)

text \<open>An error of a leaf is the error of the list that holds it, at any depth.\<close>

lemma group_fails:
  assumes "\<not> is_triple item" "typeof item = ''object'' \<and> item \<noteq> Null"
    and "group_children item = Inr (combine, children)"
    and "processItems b (for_in_values children) = Inl e"
  shows "processItem b item = Inl e"
  using assms by (simp add: processItem.simps)

lemma reaches_leaf_fails:
  "reaches_leaf b items leaf \<Longrightarrow> (\<And>b. processItem b leaf = Inl e) \<Longrightarrow>
   processItems b items = Inl e"
proof (induction rule: reaches_leaf.induct)
  case (here b leaf rest)
  then show ?case by simp
next
  case (inside item combine children b leaf rest)
  from inside.IH [OF inside.prems]
  have "processItems b (for_in_values children) = Inl e" .
  from group_fails [OF inside.hyps(1,2,3) this]
  show ?case by simp
next
  case (later b item pushed b1 rest leaf)
  from later.IH [OF later.prems] later.hyps(1) show ?case by simp
qed

lemma holds_leaf_fails:
  "holds_leaf items leaf \<Longrightarrow> (\<And>b. \<exists>e. processItem b leaf = Inl e) \<Longrightarrow>
   \<exists>e. processItems b items = Inl e"
proof (induction arbitrary: b rule: holds_leaf.induct)
  case (here leaf rest)
  from here [of b] obtain e where "processItem b leaf = Inl e" ..
  then show ?case by simp
next
  case (inside item combine children leaf rest)
  from inside.IH [OF inside.prems, of b]
  obtain e where "processItems b (for_in_values children) = Inl e" ..
  from group_fails [OF inside.hyps(1,2,3) this]
  show ?case by simp
next
  case (later rest leaf item)
  show ?case
  proof (cases "processItem b item")
    case (Inl e)
    then show ?thesis by simp
  next
    case (Inr r)
    obtain pushed b1 where r: "r = (pushed, b1)" by (cases r)
    from later.IH [OF later.prems, of b1] obtain e where "processItems b1 rest = Inl e" ..
    with Inr r show ?thesis by simp
  qed
qed

lemma holds_leaf_nonempty: "holds_leaf items leaf \<Longrightarrow> items \<noteq> []"
  by (auto elim: holds_leaf.cases)

lemma reaches_leaf_nonempty: "reaches_leaf b items leaf \<Longrightarrow> items \<noteq> []"
  by (auto elim: reaches_leaf.cases)

text \<open>The clause \<^verbatim>\<open>WHERE\<close>.\<close>

lemma build_where_fails:
  assumes st: "build_statement b = Inr (q, b1)"
    and w: "sql_where b \<noteq> []"
    and c: "processItems b1 (sql_where b) = Inl e"
  shows "build b = Inl e"
proof -
  from build_statement_frame [OF st] obtain n where "b1 = b\<lparr>sql_param_counter := n\<rparr>" ..
  then have same: "sql_where b1 = sql_where b" by simp
  have "buildWhere b1 = Inl e"
    by (simp add: buildWhere_def then_do_def same c)
  then have "build_clauses q b1 = Inl e"
    using w by (simp add: build_clauses_def then_do_def same)
  then show ?thesis by (simp add: build_def then_do_def st)
qed

text \<open>The clause \<^verbatim>\<open>HAVING\<close>, which is compiled after the clause \<^verbatim>\<open>WHERE\<close>.\<close>

lemma buildWhere_frame:
  assumes "buildWhere b = Inr (w, b1)"
  shows "\<exists>n. b1 = b\<lparr>sql_param_counter := n\<rparr>"
proof -
  from assms obtain conditions where "processConditions b (Arr (sql_where b)) = Inr (conditions, b1)"
    by (auto simp: buildWhere_def then_do_def case_prod_beta split: sum.splits)
  with compile_frame(1) [of b "Arr (sql_where b)"] show ?thesis by simp
qed

lemma build_having_fails:
  assumes st: "build_statement b = Inr (q, b1)"
    and w: "(if sql_where b \<noteq> [] then buildWhere b1 else Inr ([], b1)) = Inr (t, b2)"
    and h: "sql_having b \<noteq> []"
    and c: "processItems b2 (sql_having b) = Inl e"
  shows "build b = Inl e"
proof -
  from build_statement_frame [OF st] obtain n where b1: "b1 = b\<lparr>sql_param_counter := n\<rparr>" ..
  then have same: "sql_where b1 = sql_where b" by simp
  have "\<exists>m. b2 = b1\<lparr>sql_param_counter := m\<rparr>"
  proof (cases "sql_where b \<noteq> []")
    case True
    with w have "buildWhere b1 = Inr (t, b2)" by simp
    then show ?thesis by (rule buildWhere_frame)
  next
    case False
    with w have "b2 = b1" by simp
    then show ?thesis by (simp add: frame_refl)
  qed
  then obtain m where "b2 = b1\<lparr>sql_param_counter := m\<rparr>" ..
  with b1 have same2: "sql_having b2 = sql_having b" by simp
  have "buildHaving b2 = Inl e"
    by (simp add: buildHaving_def then_do_def same2 c)
  then have "build_clauses q b1 = Inl e"
    using w h by (simp add: build_clauses_def then_do_def same same2)
  then show ?thesis by (simp add: build_def then_do_def st)
qed

text \<open>The conditions of a join.\<close>

lemma buildJoin_fails:
  "processItems b (for_in_values (get_prop j ''conditions'')) = Inl e \<Longrightarrow> buildJoin b j = Inl e"
  by (simp add: buildJoin_def then_do_def)

lemma build_joins_fails:
  assumes "build_joins b jpre = Inr (t, b1)"
    and "processItems b1 (for_in_values (get_prop j ''conditions'')) = Inl e"
  shows "build_joins b (jpre @ j # jpost) = Inl e"
  using assms
proof (induction jpre arbitrary: b t)
  case Nil
  then show ?case by (simp add: then_do_def buildJoin_fails)
next
  case (Cons i jpre)
  from Cons.prems(1) obtain t0 b0 ts where i: "buildJoin b i = Inr (t0, b0)"
    and r: "build_joins b0 jpre = Inr (ts, b1)"
    by (auto simp: then_do_def split: sum.splits)
  from Cons.IH [OF r Cons.prems(2)] i show ?case by (simp add: then_do_def)
qed

lemma build_joins_never:
  assumes "j \<in> set js" "holds_leaf (for_in_values (get_prop j ''conditions'')) leaf"
    and leaf: "\<And>b. \<exists>e. processItem b leaf = Inl e"
  shows "\<exists>e. build_joins b js = Inl e"
  using assms(1)
proof (induction js arbitrary: b)
  case Nil
  then show ?case by simp
next
  case (Cons i js)
  show ?case
  proof (cases "buildJoin b i")
    case (Inl e)
    then show ?thesis by (simp add: then_do_def)
  next
    case (Inr r)
    obtain t b1 where r: "r = (t, b1)" by (cases r)
    have "i \<noteq> j"
    proof
      assume "i = j"
      from holds_leaf_fails [OF assms(2) leaf, of b]
      obtain e where "processItems b (for_in_values (get_prop j ''conditions'')) = Inl e" ..
      then have "buildJoin b j = Inl e" by (rule buildJoin_fails)
      with Inr \<open>i = j\<close> show False by simp
    qed
    with Cons.prems have "j \<in> set js" by simp
    from Cons.IH [OF this, of b1] obtain e where "build_joins b1 js = Inl e" ..
    with Inr r show ?thesis by (simp add: then_do_def)
  qed
qed

lemma joins_entry_frame:
  assumes "joins_entry b = Inr b0"
  shows "\<exists>n. b0 = b\<lparr>sql_param_counter := n\<rparr>"
proof -
  consider (sel) "sql_mode b = Some ''select''"
    | (ins) "sql_mode b \<noteq> Some ''select''" "sql_mode b = Some ''insert''"
    | (other) "sql_mode b \<noteq> Some ''select''" "sql_mode b \<noteq> Some ''insert''"
    by blast
  then show ?thesis
  proof cases
    case sel
    with assms have "b0 = snd (buildSelect b)" by (simp add: joins_entry_def)
    then show ?thesis by (simp only: buildSelect_frame)
  next
    case ins
    with assms obtain q where "buildInsert b = Inr (q, b0)"
      by (auto simp: joins_entry_def split: sum.splits)
    then show ?thesis by (rule buildInsert_frame)
  next
    case other
    with assms have "b0 = b" by (simp add: joins_entry_def split: if_splits)
    then show ?thesis by (simp add: frame_refl)
  qed
qed

lemma build_statement_entry:
  "build_statement b =
     (case joins_entry b of
        Inl e \<Rightarrow> Inl e
      | Inr b0 \<Rightarrow>
          (case build_joins b0 (sql_joins b0) of
             Inl e \<Rightarrow> Inl e
           | Inr (js, b1) \<Rightarrow> build_statement b))"
  by (auto simp: build_statement_def joins_entry_def then_do_def case_prod_beta split: sum.splits)

lemma build_statement_fails:
  assumes "joins_entry b = Inr b0" "build_joins b0 (sql_joins b) = Inl e"
  shows "build_statement b = Inl e"
proof -
  from joins_entry_frame [OF assms(1)] obtain n where "b0 = b\<lparr>sql_param_counter := n\<rparr>" ..
  then have "sql_joins b0 = sql_joins b" by simp
  with assms show ?thesis by (subst build_statement_entry) simp
qed

lemma build_statement_never:
  assumes "j \<in> set (sql_joins b)" "holds_leaf (for_in_values (get_prop j ''conditions'')) leaf"
    and leaf: "\<And>b. \<exists>e. processItem b leaf = Inl e"
  shows "\<exists>e. build_statement b = Inl e"
proof (cases "joins_entry b")
  case (Inl e)
  then show ?thesis by (subst build_statement_entry) simp
next
  case (Inr b0)
  from build_joins_never [OF assms(1,2) leaf, of b0]
  obtain e where "build_joins b0 (sql_joins b) = Inl e" by blast
  from build_statement_fails [OF Inr this] show ?thesis ..
qed

lemma build_never:
  assumes "holds_leaf (sql_where b) leaf \<or> holds_leaf (sql_having b) leaf \<or>
      (\<exists>j \<in> set (sql_joins b). holds_leaf (for_in_values (get_prop j ''conditions'')) leaf)"
    and leaf: "\<And>b. \<exists>e. processItem b leaf = Inl e"
  shows "\<exists>e. build b = Inl e"
proof (cases "build_statement b")
  case (Inl e)
  then show ?thesis by (simp add: build_def then_do_def)
next
  case (Inr r)
  obtain q b1 where r: "r = (q, b1)" by (cases r)
  with Inr have st: "build_statement b = Inr (q, b1)" by simp
  from build_statement_never [OF _ _ leaf, of _ b] st
  have "\<not> (\<exists>j \<in> set (sql_joins b). holds_leaf (for_in_values (get_prop j ''conditions'')) leaf)"
    by fastforce
  with assms(1) consider (w) "holds_leaf (sql_where b) leaf"
    | (h) "holds_leaf (sql_having b) leaf" by blast
  then show ?thesis
  proof cases
    case w
    from holds_leaf_fails [OF w leaf, of b1] obtain e where "processItems b1 (sql_where b) = Inl e" ..
    from build_where_fails [OF st holds_leaf_nonempty [OF w] this] show ?thesis ..
  next
    case h
    show ?thesis
    proof (cases "if sql_where b \<noteq> [] then buildWhere b1 else Inr ([], b1)")
      case (Inl e)
      then have "sql_where b \<noteq> []" "buildWhere b1 = Inl e" by (auto split: if_splits)
      then have "processItems b1 (sql_where b1) = Inl e"
        by (auto simp: buildWhere_def then_do_def split: sum.splits)
      moreover from build_statement_frame [OF st] have "sql_where b1 = sql_where b" by auto
      ultimately have "processItems b1 (sql_where b) = Inl e" by simp
      from build_where_fails [OF st \<open>sql_where b \<noteq> []\<close> this] show ?thesis ..
    next
      case (Inr r2)
      obtain t b2 where "r2 = (t, b2)" by (cases r2)
      with Inr have wh: "(if sql_where b \<noteq> [] then buildWhere b1 else Inr ([], b1)) = Inr (t, b2)"
        by simp
      from holds_leaf_fails [OF h leaf, of b2] obtain e where "processItems b2 (sql_having b) = Inl e" ..
      from build_having_fails [OF st wh holds_leaf_nonempty [OF h] this] show ?thesis ..
    qed
  qed
qed

text \<open>
  C8.  A leaf whose operator is none of the sixteen known ones makes
  \<^verbatim>\<open>processCondition\<close> raise the unknown-clause error, with no fragment, and the loop over
  a list stops there.  The error is the result of compiling any list of conditions in
  which the loop arrives at the leaf, at the top level or inside groups of any depth,
  and a list that holds the leaf anywhere never compiles.  It reaches the caller of
  \<^verbatim>\<open>build\<close> from each of the three places where conditions are compiled: \<^verbatim>\<open>build\<close> returns
  no query when the leaf stands in the conditions of \<^verbatim>\<open>where\<close>, of \<^verbatim>\<open>having\<close> or of a join,
  and it ends with exactly that error as soon as everything compiled before the leaf
  (the statement, the joins and clauses before it, the conditions before it) has
  compiled.
\<close>

theorem C8_unknown_operator:
  assumes "op \<notin> Str ` {''='', ''<='', ''>='', ''<'', ''>'', ''!='', ''<>'', ''is'', ''is not'',
      ''between'', ''in'', ''not in'', ''contains'', ''begins'', ''ends'', ''in set''}"
  shows "processCondition b [column, op, val] = Inl UnknownClause \<and>
         processItems b (Arr [column, op, val] # rest) = Inl UnknownClause \<and>
         (sql_where b = pre @ Arr [column, op, val] # post \<longrightarrow>
            (\<exists>e. build b = Inl e) \<and>
            (\<forall>q b1 fs b2. build_statement b = Inr (q, b1) \<longrightarrow> processItems b1 pre = Inr (fs, b2) \<longrightarrow>
               build b = Inl UnknownClause)) \<and>
         (reaches_leaf b items (Arr [column, op, val]) \<longrightarrow> processItems b items = Inl UnknownClause) \<and>
         (holds_leaf items (Arr [column, op, val]) \<longrightarrow> (\<exists>e. processItems b items = Inl e)) \<and>
         (holds_leaf (sql_where b) (Arr [column, op, val]) \<or>
          holds_leaf (sql_having b) (Arr [column, op, val]) \<or>
          (\<exists>j \<in> set (sql_joins b).
             holds_leaf (for_in_values (get_prop j ''conditions'')) (Arr [column, op, val])) \<longrightarrow>
            (\<exists>e. build b = Inl e)) \<and>
         (\<forall>q b1. build_statement b = Inr (q, b1) \<longrightarrow>
            reaches_leaf b1 (sql_where b) (Arr [column, op, val]) \<longrightarrow>
            build b = Inl UnknownClause) \<and>
         (\<forall>q b1 w b2. build_statement b = Inr (q, b1) \<longrightarrow>
            (if sql_where b \<noteq> [] then buildWhere b1 else Inr ([], b1)) = Inr (w, b2) \<longrightarrow>
            reaches_leaf b2 (sql_having b) (Arr [column, op, val]) \<longrightarrow>
            build b = Inl UnknownClause) \<and>
         (\<forall>b0 jpre j jpost t b1. joins_entry b = Inr b0 \<longrightarrow>
            sql_joins b = jpre @ j # jpost \<longrightarrow>
            build_joins b0 jpre = Inr (t, b1) \<longrightarrow>
            reaches_leaf b1 (for_in_values (get_prop j ''conditions'')) (Arr [column, op, val]) \<longrightarrow>
            build b = Inl UnknownClause)"
proof -
  let ?leaf = "Arr [column, op, val]"
  have leaf: "\<And>b. processCondition b [column, op, val] = Inl UnknownClause"
    using assms by (rule unknown_leaf)
  have item: "\<And>b. processItem b ?leaf = Inl UnknownClause"
    by (simp add: processItem.simps leaf)
  have some: "\<And>b. \<exists>e. processItem b ?leaf = Inl e"
    using item by blast
  have items: "\<And>b rest. processItems b (?leaf # rest) = Inl UnknownClause"
    by (simp add: item)
  have reached: "build b = Inl UnknownClause"
    if w: "sql_where b = pre @ ?leaf # post"
      and st: "build_statement b = Inr (q, b1)" and p: "processItems b1 pre = Inr (fs, b2)"
    for q b1 fs b2
  proof -
    have "processItems b1 (sql_where b) = Inl UnknownClause"
      unfolding w processItems_append by (simp add: p item)
    with st w show ?thesis by (intro build_where_fails) auto
  qed
  have never: "\<exists>e. build b = Inl e" if w: "sql_where b = pre @ ?leaf # post"
  proof (cases "build_statement b")
    case (Inl e)
    then show ?thesis by (simp add: build_def then_do_def)
  next
    case (Inr r)
    obtain q b1 where r: "r = (q, b1)" by (cases r)
    have "\<exists>e. processItems b1 (sql_where b) = Inl e"
      unfolding w processItems_append by (auto simp: item split: sum.splits)
    then obtain e where "processItems b1 (sql_where b) = Inl e" ..
    with Inr r w have "build b = Inl e" by (intro build_where_fails) auto
    then show ?thesis ..
  qed
  have compiled: "processItems b items = Inl UnknownClause" if "reaches_leaf b items ?leaf"
    using that item by (rule reaches_leaf_fails)
  have held: "\<exists>e. processItems b items = Inl e" if "holds_leaf items ?leaf"
    using that some by (rule holds_leaf_fails)
  have anywhere: "\<exists>e. build b = Inl e"
    if "holds_leaf (sql_where b) ?leaf \<or> holds_leaf (sql_having b) ?leaf \<or>
        (\<exists>j \<in> set (sql_joins b). holds_leaf (for_in_values (get_prop j ''conditions'')) ?leaf)"
    using that some by (rule build_never)
  have in_where: "build b = Inl UnknownClause"
    if st: "build_statement b = Inr (q, b1)" and r: "reaches_leaf b1 (sql_where b) ?leaf"
    for q b1
  proof -
    from r item have "processItems b1 (sql_where b) = Inl UnknownClause"
      by (rule reaches_leaf_fails)
    from build_where_fails [OF st reaches_leaf_nonempty [OF r] this] show ?thesis .
  qed
  have in_having: "build b = Inl UnknownClause"
    if st: "build_statement b = Inr (q, b1)"
      and w: "(if sql_where b \<noteq> [] then buildWhere b1 else Inr ([], b1)) = Inr (t, b2)"
      and r: "reaches_leaf b2 (sql_having b) ?leaf"
    for q b1 t b2
  proof -
    from r item have "processItems b2 (sql_having b) = Inl UnknownClause"
      by (rule reaches_leaf_fails)
    from build_having_fails [OF st w reaches_leaf_nonempty [OF r] this] show ?thesis .
  qed
  have in_join: "build b = Inl UnknownClause"
    if e: "joins_entry b = Inr b0" and j: "sql_joins b = jpre @ j # jpost"
      and p: "build_joins b0 jpre = Inr (t, b1)"
      and r: "reaches_leaf b1 (for_in_values (get_prop j ''conditions'')) ?leaf"
    for b0 jpre j jpost t b1
  proof -
    from r item have "processItems b1 (for_in_values (get_prop j ''conditions'')) = Inl UnknownClause"
      by (rule reaches_leaf_fails)
    with p have "build_joins b0 (jpre @ j # jpost) = Inl UnknownClause"
      by (rule build_joins_fails)
    with e j have "build_statement b = Inl UnknownClause"
      by (intro build_statement_fails) auto
    then show ?thesis by (simp add: build_def then_do_def)
  qed
  from reached never have top: "sql_where b = pre @ ?leaf # post \<longrightarrow>
      (\<exists>e. build b = Inl e) \<and>
      (\<forall>q b1 fs b2. build_statement b = Inr (q, b1) \<longrightarrow> processItems b1 pre = Inr (fs, b2) \<longrightarrow>
         build b = Inl UnknownClause)"
    by blast
  from in_join have joined: "\<forall>b0 jpre j jpost t b1. joins_entry b = Inr b0 \<longrightarrow>
      sql_joins b = jpre @ j # jpost \<longrightarrow>
      build_joins b0 jpre = Inr (t, b1) \<longrightarrow>
      reaches_leaf b1 (for_in_values (get_prop j ''conditions'')) ?leaf \<longrightarrow>
      build b = Inl UnknownClause"
    by blast
  from in_having have grouped: "\<forall>q b1 w b2. build_statement b = Inr (q, b1) \<longrightarrow>
      (if sql_where b \<noteq> [] then buildWhere b1 else Inr ([], b1)) = Inr (w, b2) \<longrightarrow>
      reaches_leaf b2 (sql_having b) ?leaf \<longrightarrow>
      build b = Inl UnknownClause"
    by blast
  from in_where have filtered: "\<forall>q b1. build_statement b = Inr (q, b1) \<longrightarrow>
      reaches_leaf b1 (sql_where b) ?leaf \<longrightarrow> build b = Inl UnknownClause"
    by blast
  from compiled have arrived:
    "reaches_leaf b items ?leaf \<longrightarrow> processItems b items = Inl UnknownClause" ..
  from held have nested: "holds_leaf items ?leaf \<longrightarrow> (\<exists>e. processItems b items = Inl e)" ..
  from anywhere have placed:
    "holds_leaf (sql_where b) ?leaf \<or> holds_leaf (sql_having b) ?leaf \<or>
     (\<exists>j \<in> set (sql_joins b). holds_leaf (for_in_values (get_prop j ''conditions'')) ?leaf) \<longrightarrow>
       (\<exists>e. build b = Inl e)" ..
  from leaf [of b] items [of b rest] top arrived nested placed filtered grouped joined
  show ?thesis by - (intro conjI, assumption+)
qed

theorem C8_unknown_operator_witness:
  "processCondition constructor [Str ''a'', Str ''xor'', Str ''b''] = Inl UnknownClause \<and>
   processItems constructor [Arr [Str ''a'', Str ''xor'', Str ''b''], Str ''RAW()''] = Inl UnknownClause \<and>
   build (constructor\<lparr>sql_delete := Obj [(''table'', Str ''`t`'')],
                       sql_where := [Arr [Str ''a'', Str ''xor'', Str ''b'']],
                       sql_mode := Some ''delete''\<rparr>) = Inl UnknownClause \<and>
   build (constructor\<lparr>sql_delete := Obj [(''table'', Str ''`t`'')],
                       sql_where := [Str ''RAW()'',
                                     Obj [(''or'', Arr [Arr [Str ''a'', Str ''xor'', Str ''b'']])]],
                       sql_mode := Some ''delete''\<rparr>) = Inl UnknownClause \<and>
   build (constructor\<lparr>sql_delete := Obj [(''table'', Str ''`t`'')],
                       sql_where := [Str ''RAW()''],
                       sql_having := [Obj [(''and'', Arr [Arr [Str ''a'', Str ''xor'', Str ''b'']])]],
                       sql_mode := Some ''delete''\<rparr>) = Inl UnknownClause \<and>
   build (constructor\<lparr>sql_delete := Obj [(''table'', Str ''`t`'')],
                       sql_joins := [Obj [(''type'', Str ''inner''), (''table'', Str ''`u`''),
                                          (''conditions'', Arr [Arr [Str ''a'', Str ''xor'', Str ''b'']])]],
                       sql_mode := Some ''delete''\<rparr>) = Inl UnknownClause"
proof -
  let ?leaf = "Arr [Str ''a'', Str ''xor'', Str ''b'']"
  let ?d = "constructor\<lparr>sql_delete := Obj [(''table'', Str ''`t`'')]\<rparr>"
  let ?b = "?d\<lparr>sql_where := [?leaf], sql_mode := Some ''delete''\<rparr>"
  let ?w = "?d\<lparr>sql_where := [Str ''RAW()'', Obj [(''or'', Arr [?leaf])]], sql_mode := Some ''delete''\<rparr>"
  let ?h = "?d\<lparr>sql_where := [Str ''RAW()''], sql_having := [Obj [(''and'', Arr [?leaf])]],
               sql_mode := Some ''delete''\<rparr>"
  let ?j = "Obj [(''type'', Str ''inner''), (''table'', Str ''`u`''), (''conditions'', Arr [?leaf])]"
  let ?n = "?d\<lparr>sql_joins := [?j], sql_mode := Some ''delete''\<rparr>"
  have op: "Str ''xor'' \<notin> Str ` {''='', ''<='', ''>='', ''<'', ''>'', ''!='', ''<>'', ''is'', ''is not'',
      ''between'', ''in'', ''not in'', ''contains'', ''begins'', ''ends'', ''in set''}"
    by simp
  note C8 = C8_unknown_operator [OF op, of _ "Str ''a''" "Str ''b''"]
  have "processCondition constructor [Str ''a'', Str ''xor'', Str ''b''] = Inl UnknownClause"
    "processItems constructor [?leaf, Str ''RAW()''] = Inl UnknownClause"
    using C8 [of constructor "[Str ''RAW()'']" "[]" "[]" "[]"] by blast+
  moreover have "build ?b = Inl UnknownClause"
  proof -
    have st: "build_statement ?b = Inr (buildDelete ?b, ?b)"
      by (simp add: build_statement_def then_do_def constructor_def)
    have w: "sql_where ?b = [] @ ?leaf # []" by simp
    have pre: "processItems ?b [] = Inr ([], ?b)" by simp
    from C8 [of ?b "[]" "[]" "[]" "[]"] w st pre show ?thesis by blast
  qed
  moreover have "build ?w = Inl UnknownClause"
  proof -
    have st: "build_statement ?w = Inr (buildDelete ?w, ?w)"
      by (simp add: build_statement_def then_do_def constructor_def)
    have raw: "processItem ?w (Str ''RAW()'') = Inr ([Some ''RAW()''], ?w)"
      by (simp add: processItem.simps)
    have g: "group_children (Obj [(''or'', Arr [?leaf])]) = Inr (''OR'', Arr [?leaf])"
      by (simp add: group_children_def normalise_keys_def)
    have "reaches_leaf ?w [Obj [(''or'', Arr [?leaf])]] ?leaf"
      by (rule reaches_leaf.inside [OF _ _ g]) (simp_all add: reaches_leaf.here)
    with raw have "reaches_leaf ?w [Str ''RAW()'', Obj [(''or'', Arr [?leaf])]] ?leaf"
      by (rule reaches_leaf.later)
    then have "reaches_leaf ?w (sql_where ?w) ?leaf" by simp
    with C8 [of ?w "[]" "[]" "[]" "[]"] st show ?thesis by blast
  qed
  moreover have "build ?h = Inl UnknownClause"
  proof -
    have st: "build_statement ?h = Inr (buildDelete ?h, ?h)"
      by (simp add: build_statement_def then_do_def constructor_def)
    have raw: "processItem ?h (Str ''RAW()'') = Inr ([Some ''RAW()''], ?h)"
      by (simp add: processItem.simps)
    have wh: "(if sql_where ?h \<noteq> [] then buildWhere ?h else Inr ([], ?h)) =
        Inr (''WHERE RAW()'' @ [CHR 0x0A], ?h)"
      by (simp add: buildWhere_def then_do_def raw join_frags_def)
    have g: "group_children (Obj [(''and'', Arr [?leaf])]) = Inr (''AND'', Arr [?leaf])"
      by (simp add: group_children_def normalise_keys_def)
    have "reaches_leaf ?h [Obj [(''and'', Arr [?leaf])]] ?leaf"
      by (rule reaches_leaf.inside [OF _ _ g]) (simp_all add: reaches_leaf.here)
    then have "reaches_leaf ?h (sql_having ?h) ?leaf" by simp
    with C8 [of ?h "[]" "[]" "[]" "[]"] st wh show ?thesis by blast
  qed
  moreover have "build ?n = Inl UnknownClause"
  proof -
    have e: "joins_entry ?n = Inr ?n" by (simp add: joins_entry_def constructor_def)
    have j: "sql_joins ?n = [] @ ?j # []" by simp
    have p: "build_joins ?n [] = Inr ([], ?n)" by simp
    have "reaches_leaf ?n (for_in_values (get_prop ?j ''conditions'')) ?leaf"
      by (simp add: get_prop_def reaches_leaf.here)
    with C8 [of ?n "[]" "[]" "[]" "[]"] e j p show ?thesis by blast
  qed
  ultimately show ?thesis by (simp only: simp_thms)
qed

section \<open>The statement mode\<close>

lemma table_mode: "sql_mode (snd (table b payload)) = sql_mode b"
  by (simp add: table_def Let_def split: list.splits prod.splits)

lemma joins_loop_mode: "joins_loop b js = Inr b1 \<Longrightarrow> sql_mode b1 = sql_mode b"
proof (induction js arbitrary: b)
  case Nil
  then show ?case by simp
next
  case (Cons j js)
  obtain t b' where t: "table b (get_prop j ''table'') = (t, b')"
    by (cases "table b (get_prop j ''table'')")
  then have m: "sql_mode b' = sql_mode b" using table_mode [of b "get_prop j ''table''"] by simp
  from Cons.prems t have "joins_loop
      (b'\<lparr>sql_joins := sql_joins b' @
           [Obj [(''type'', get_prop j ''type''), (''table'', t),
                 (''conditions'', get_prop j ''conditions'')]]\<rparr>) js = Inr b1"
    by (auto simp: then_do_def split: sum.splits)
  from Cons.IH [OF this] m show ?case by simp
qed

lemma set_limit_mode: "sql_mode (set_limit b offset lim) = sql_mode b"
  by (simp add: set_limit_def)

lemma limit_mode: "limit b val = Inr b1 \<Longrightarrow> sql_mode b1 = sql_mode b"
  by (auto simp: limit_def then_do_def set_limit_mode split: if_splits sum.splits)

lemma params_mode: "params text_length b p = Inr b1 \<Longrightarrow> sql_mode b1 = sql_mode b"
  by (auto simp: params_def split: sum.splits)

lemma simple_mode:
  "order b p = Inr b1 \<Longrightarrow> sql_mode b1 = sql_mode b"
  "group_sql b p = Inr b1 \<Longrightarrow> sql_mode b1 = sql_mode b"
  "where_sql b p = Inr b1 \<Longrightarrow> sql_mode b1 = sql_mode b"
  "having b p = Inr b1 \<Longrightarrow> sql_mode b1 = sql_mode b"
  "joins b p = Inr b1 \<Longrightarrow> sql_mode b1 = sql_mode b"
  by (auto simp: order_def group_sql_def where_sql_def having_def joins_def joins_loop_mode)

lemma apply_call_mode: "apply_call text_length b c = Inr b1 \<Longrightarrow> sql_mode b1 = sql_mode b"
  by (cases c) (simp_all add: simple_mode limit_mode params_mode)

lemma apply_calls_mode: "apply_calls text_length b cs = Inr b1 \<Longrightarrow> sql_mode b1 = sql_mode b"
proof (induction cs arbitrary: b)
  case Nil
  then show ?case by simp
next
  case (Cons c cs)
  from Cons.prems obtain b' where c: "apply_call text_length b c = Inr b'"
    and r: "apply_calls text_length b' cs = Inr b1"
    by (auto simp: then_do_def split: sum.splits)
  from Cons.IH [OF r] apply_call_mode [OF c] show ?case by simp
qed

lemma build_unset: "sql_mode b = None \<Longrightarrow> build b = Inl UnknownQueryType"
  by (simp add: build_def build_statement_def then_do_def)

lemma when_in_absent:
  "props_of payload k = None \<Longrightarrow>
   when_in payload k method b = (if typeof payload = ''object'' \<and> payload \<noteq> Null then Inr b else Inl TypeError)"
  by (simp add: when_in_def has_prop_def then_do_def)

lemma when_in_mode:
  assumes "\<And>b p b1. method b p = Inr b1 \<Longrightarrow> sql_mode b1 = sql_mode b"
    and "when_in payload k method b = Inr b1"
  shows "sql_mode b1 = sql_mode b"
  using assms(2) assms(1) [of b "get_prop payload k" b1]
  by (auto simp: when_in_def then_do_def split: sum.splits if_splits)

text \<open>Whether a registration method raises, and what, does not depend on the builder.\<close>

lemma joins_loop_error: "(joins_loop b js = Inl e) = (joins_loop b' js = Inl e)"
proof (induction js arbitrary: b b')
  case Nil
  show ?case by simp
next
  case (Cons j js)
  obtain t b1 where t: "table b (get_prop j ''table'') = (t, b1)"
    by (cases "table b (get_prop j ''table'')")
  obtain t' b1' where t': "table b' (get_prop j ''table'') = (t', b1')"
    by (cases "table b' (get_prop j ''table'')")
  show ?case
    using Cons.IH
      [of "b1\<lparr>sql_joins := sql_joins b1 @
              [Obj [(''type'', get_prop j ''type''), (''table'', t),
                    (''conditions'', get_prop j ''conditions'')]]\<rparr>"
          "b1'\<lparr>sql_joins := sql_joins b1' @
              [Obj [(''type'', get_prop j ''type''), (''table'', t'),
                    (''conditions'', get_prop j ''conditions'')]]\<rparr>"]
    by (simp add: then_do_def t t' split: sum.splits)
qed

lemma limit_error: "(limit b val = Inl e) = (limit b' val = Inl e)"
  by (simp add: limit_def then_do_def split: sum.splits)

lemma params_loop_raises:
  "params_loop text_length kvs m = Inl e \<Longrightarrow> params_loop text_length kvs m' = Inl e"
proof (induction kvs arbitrary: m m')
  case Nil
  then show ?case by simp
next
  case (Cons kv kvs)
  obtain i v where kv: "kv = (i, v)" by (cases kv)
  show ?case
  proof (cases "i = ''length''")
    case False
    with Cons.prems kv have "params_loop text_length kvs (m(i \<mapsto> v)) = Inl e" by simp
    then have "params_loop text_length kvs (m'(i \<mapsto> v)) = Inl e" by (rule Cons.IH)
    with False kv show ?thesis by simp
  next
    case True
    show ?thesis
    proof (cases "array_length text_length v")
      case None
      with Cons.prems True kv show ?thesis by simp
    next
      case (Some n)
      with Cons.prems True kv have "params_loop text_length kvs (set_length n m) = Inl e" by simp
      then have "params_loop text_length kvs (set_length n m') = Inl e" by (rule Cons.IH)
      with True Some kv show ?thesis by simp
    qed
  qed
qed

lemma params_raises:
  "params text_length b p = Inl e \<Longrightarrow> params text_length b' p = Inl e"
proof -
  assume "params text_length b p = Inl e"
  then have "params_loop text_length (zip (for_in_keys p) (for_in_values p)) (sql_params b) = Inl e"
    by (simp add: params_def split: sum.splits)
  then have "params_loop text_length (zip (for_in_keys p) (for_in_values p)) (sql_params b') = Inl e"
    by (rule params_loop_raises)
  then show ?thesis by (simp add: params_def)
qed

lemma params_error: "(params text_length b p = Inl e) = (params text_length b' p = Inl e)"
  using params_raises [of text_length b p e b'] params_raises [of text_length b' p e b] by blast

lemma when_in_error:
  assumes "\<And>p. (method b p = Inl e) = (method b' p = Inl e)"
  shows "(when_in payload k method b = Inl e) = (when_in payload k method b' = Inl e)"
  using assms [of "get_prop payload k"]
  by (simp add: when_in_def then_do_def split: sum.splits)

lemma when_in_total:
  assumes "typeof payload = ''object'' \<and> payload \<noteq> Null" "\<And>b p. \<exists>b1. method b p = Inr b1"
  shows "\<exists>b1. when_in payload k method b = Inr b1"
  using assms(1) assms(2) [of b "get_prop payload k"]
  by (auto simp: when_in_def then_do_def has_prop_def)

lemma fromJson_no_statement:
  assumes obj: "typeof payload = ''object'' \<and> payload \<noteq> Null"
    and none: "props_of payload ''select'' = None" "props_of payload ''insert'' = None"
      "props_of payload ''update'' = None" "props_of payload ''delete'' = None"
  shows "fromJson text_length payload =
           then_do (when_in payload ''joins'' joins constructor) (\<lambda>b5.
           then_do (when_in payload ''limit'' limit constructor) (\<lambda>b10.
           then_do (when_in payload ''params'' (params text_length) constructor) (\<lambda>b11.
             Inl UnknownQueryType)))"
proof -
  have start: "when_in payload ''select'' select constructor = Inr constructor"
    "when_in payload ''insert'' insert_sql constructor = Inr constructor"
    "when_in payload ''update'' update constructor = Inr constructor"
    "when_in payload ''delete'' delete constructor = Inr constructor"
    using none obj by (simp_all add: when_in_absent)
  have unset: "sql_mode constructor = None" by (simp add: constructor_def)
  show ?thesis
  proof (cases "when_in payload ''joins'' joins constructor")
    case (Inl e)
    then show ?thesis by (simp add: fromJson_def then_do_def start)
  next
    case s5: (Inr b5)
    obtain b6 where s6: "when_in payload ''where'' where_sql b5 = Inr b6"
      using when_in_total [OF obj, of where_sql] by (auto simp: where_sql_def)
    obtain b7 where s7: "when_in payload ''having'' having b6 = Inr b7"
      using when_in_total [OF obj, of having] by (auto simp: having_def)
    obtain b8 where s8: "when_in payload ''order'' order b7 = Inr b8"
      using when_in_total [OF obj, of order] by (auto simp: order_def)
    obtain b9 where s9: "when_in payload ''group'' group_sql b8 = Inr b9"
      using when_in_total [OF obj, of group_sql] by (auto simp: group_sql_def)
    have prefix: "fromJson text_length payload =
        then_do (when_in payload ''limit'' limit b9) (\<lambda>b10.
        then_do (when_in payload ''params'' (params text_length) b10) (\<lambda>b11.
        then_do (build b11) (\<lambda>(query, b12). Inr query)))"
      by (simp add: fromJson_def then_do_def start s5 s6 s7 s8 s9)
    show ?thesis
    proof (cases "when_in payload ''limit'' limit b9")
      case (Inl e)
      then have "when_in payload ''limit'' limit constructor = Inl e"
        using when_in_error [of limit b9 e constructor payload "''limit''"] limit_error by blast
      with Inl show ?thesis by (simp add: prefix then_do_def s5)
    next
      case s10: (Inr b10)
      then obtain c10 where t10: "when_in payload ''limit'' limit constructor = Inr c10"
        using when_in_error [of limit b9 _ constructor payload "''limit''"] limit_error
        by (cases "when_in payload ''limit'' limit constructor") auto
      show ?thesis
      proof (cases "when_in payload ''params'' (params text_length) b10")
        case (Inl e)
        then have "when_in payload ''params'' (params text_length) constructor = Inl e"
          using when_in_error [of "params text_length" b10 e constructor payload "''params''"]
            params_error by blast
        with Inl show ?thesis by (simp add: prefix then_do_def s5 s10 t10)
      next
        case s11: (Inr b11)
        then obtain c11 where t11: "when_in payload ''params'' (params text_length) constructor = Inr c11"
          using when_in_error [of "params text_length" b10 _ constructor payload "''params''"]
            params_error
          by (cases "when_in payload ''params'' (params text_length) constructor") auto
        have "sql_mode b11 = None"
          using when_in_mode [OF simple_mode(5) s5] when_in_mode [OF simple_mode(3) s6]
            when_in_mode [OF simple_mode(4) s7] when_in_mode [OF simple_mode(1) s8]
            when_in_mode [OF simple_mode(2) s9] when_in_mode [OF limit_mode s10]
            when_in_mode [OF params_mode s11] unset
          by simp
        then have "build b11 = Inl UnknownQueryType" by (rule build_unset)
        then show ?thesis by (simp add: prefix then_do_def s5 s10 t10 s11 t11)
      qed
    qed
  qed
qed

lemma fromJson_raises:
  assumes "props_of payload ''select'' = None" "props_of payload ''insert'' = None"
    "props_of payload ''update'' = None" "props_of payload ''delete'' = None"
  shows "\<exists>e. fromJson text_length payload = Inl e"
proof (cases "typeof payload = ''object'' \<and> payload \<noteq> Null")
  case False
  then have "when_in payload ''select'' select constructor = Inl TypeError"
    using assms(1) by (simp add: when_in_absent)
  then show ?thesis by (simp add: fromJson_def then_do_def)
next
  case True
  show ?thesis
    unfolding fromJson_no_statement [OF True assms]
    by (auto simp: then_do_def split: sum.splits)
qed

lemma fromJson_quiet:
  assumes obj: "typeof payload = ''object'' \<and> payload \<noteq> Null"
    and none: "props_of payload ''select'' = None" "props_of payload ''insert'' = None"
      "props_of payload ''update'' = None" "props_of payload ''delete'' = None"
    and quiet: "props_of payload ''joins'' = None" "props_of payload ''limit'' = None"
      "props_of payload ''params'' = None"
  shows "fromJson text_length payload = Inl UnknownQueryType"
  unfolding fromJson_no_statement [OF obj none]
  using obj quiet by (simp add: when_in_absent then_do_def)

lemma fromJson_bad_length:
  assumes "array_length text_length v = None"
  shows "fromJson text_length (Obj [(''params'', Obj [(''length'', v)])]) = Inl RangeError"
proof -
  have "fromJson text_length (Obj [(''params'', Obj [(''length'', v)])]) =
      then_do (when_in (Obj [(''params'', Obj [(''length'', v)])]) ''joins'' joins constructor) (\<lambda>b5.
      then_do (when_in (Obj [(''params'', Obj [(''length'', v)])]) ''limit'' limit constructor) (\<lambda>b10.
      then_do (when_in (Obj [(''params'', Obj [(''length'', v)])]) ''params'' (params text_length) constructor) (\<lambda>b11.
        Inl UnknownQueryType)))"
    by (rule fromJson_no_statement) simp_all
  also have "\<dots> = Inl RangeError"
    using assms by (simp add: when_in_def has_prop_def get_prop_def then_do_def params_def)
  finally show ?thesis .
qed

text \<open>
  C10.  \<^verbatim>\<open>build\<close> on a builder whose statement mode is unset raises the unknown-query-type
  error and returns no query; the mode is unset on a new instance and stays unset
  under every chain of calls of the other public methods.  \<^verbatim>\<open>fromJson\<close> on a payload with
  none of the keys \<open>select\<close>, \<open>insert\<close>, \<open>update\<close>, \<open>delete\<close> never returns a query: it raises.
  On an object payload, what it raises is the error of \<^verbatim>\<open>joins\<close>, else of \<^verbatim>\<open>limit\<close>, else of
  \<^verbatim>\<open>params\<close>, when the payload has that key and the method raises on it (these three are
  the methods that can raise before \<^verbatim>\<open>build\<close> is reached), and the unknown-query-type
  error otherwise; so it is the unknown-query-type error when the payload has none of
  the three keys.  A payload whose \<open>params\<close> give the key \<open>length\<close> a value that is not
  an array length ends with the \<^verbatim>\<open>RangeError\<close> of the language instead.
\<close>

theorem C10_unset_mode:
  "(sql_mode b = None \<longrightarrow> build b = Inl UnknownQueryType) \<and>
   (apply_calls text_length constructor calls = Inr b \<longrightarrow> build b = Inl UnknownQueryType) \<and>
   (props_of payload ''select'' = None \<and> props_of payload ''insert'' = None \<and>
    props_of payload ''update'' = None \<and> props_of payload ''delete'' = None \<longrightarrow>
      (\<exists>e. fromJson text_length payload = Inl e) \<and>
      (typeof payload = ''object'' \<and> payload \<noteq> Null \<longrightarrow>
         fromJson text_length payload =
           then_do (when_in payload ''joins'' joins constructor) (\<lambda>b5.
           then_do (when_in payload ''limit'' limit constructor) (\<lambda>b10.
           then_do (when_in payload ''params'' (params text_length) constructor) (\<lambda>b11.
             Inl UnknownQueryType)))) \<and>
      (typeof payload = ''object'' \<and> payload \<noteq> Null \<and>
       props_of payload ''joins'' = None \<and> props_of payload ''limit'' = None \<and>
       props_of payload ''params'' = None \<longrightarrow>
         fromJson text_length payload = Inl UnknownQueryType)) \<and>
   (array_length text_length v = None \<longrightarrow>
      fromJson text_length (Obj [(''params'', Obj [(''length'', v)])]) = Inl RangeError)"
proof -
  have "build b = Inl UnknownQueryType" if "apply_calls text_length constructor calls = Inr b"
  proof -
    from apply_calls_mode [OF that] have "sql_mode b = None" by (simp add: constructor_def)
    then show ?thesis by (rule build_unset)
  qed
  then show ?thesis
    using build_unset [of b] fromJson_raises [of payload text_length]
      fromJson_no_statement [of payload text_length] fromJson_quiet [of payload text_length]
      fromJson_bad_length [of text_length v]
    by blast
qed

theorem C10_unset_mode_witness:
  "build constructor = Inl UnknownQueryType \<and>
   apply_calls (\<lambda>s. None) constructor [Where (Arr [Str ''a = 1'']), Order (Arr [Str ''a''])] =
     Inr (constructor\<lparr>sql_where := [Str ''a = 1''], sql_order := [Str ''a'']\<rparr>) \<and>
   build (constructor\<lparr>sql_where := [Str ''a = 1''], sql_order := [Str ''a'']\<rparr>) =
     Inl UnknownQueryType \<and>
   fromJson (\<lambda>s. None) (Obj [(''where'', Arr [Str ''a = 1''])]) = Inl UnknownQueryType \<and>
   fromJson (\<lambda>s. None) (Obj [(''joins'', Arr [Obj []])]) = Inl (MissingField ''Joins: Missing type'') \<and>
   fromJson (\<lambda>s. None) (Obj [(''params'', Obj [(''length'', Str ''x'')])]) = Inl RangeError"
proof -
  let ?b = "constructor\<lparr>sql_where := [Str ''a = 1''], sql_order := [Str ''a'']\<rparr>"
  let ?calls = "[Where (Arr [Str ''a = 1'']), Order (Arr [Str ''a''])]"
  have calls: "apply_calls (\<lambda>s. None) constructor ?calls = Inr ?b"
    by (simp add: then_do_def where_sql_def order_def constructor_def)
  have unset: "sql_mode constructor = None" by (simp add: constructor_def)
  have "build constructor = Inl UnknownQueryType"
    using C10_unset_mode [of constructor "\<lambda>s. None" "[]" "Null" Undefined] unset by blast
  moreover have "build ?b = Inl UnknownQueryType"
    using C10_unset_mode [of ?b "\<lambda>s. None" ?calls "Null" Undefined] calls by blast
  moreover have "fromJson (\<lambda>s. None) (Obj [(''where'', Arr [Str ''a = 1''])]) = Inl UnknownQueryType"
    using C10_unset_mode [of constructor "\<lambda>s. None" "[]" "Obj [(''where'', Arr [Str ''a = 1''])]" Undefined]
    by (simp add: when_in_def has_prop_def then_do_def)
  moreover have "fromJson (\<lambda>s. None) (Obj [(''joins'', Arr [Obj []])]) =
      Inl (MissingField ''Joins: Missing type'')"
    using C10_unset_mode [of constructor "\<lambda>s. None" "[]" "Obj [(''joins'', Arr [Obj []])]" Undefined]
    by (simp add: when_in_def has_prop_def get_prop_def then_do_def joins_def require_def)
  moreover have "fromJson (\<lambda>s. None) (Obj [(''params'', Obj [(''length'', Str ''x'')])]) = Inl RangeError"
    using C10_unset_mode [of constructor "\<lambda>s. None" "[]" Null "Str ''x''"]
    by (simp add: array_length_def)
  ultimately show ?thesis using calls by (simp only: simp_thms)
qed

end
